theory Spec2Isabelle
  imports Complex_Main "HOL-Library.Word" "HOL-Library.Log_Nat"
begin

section \<open>JavaScript strings\<close>

text \<open>
  A JavaScript string is a sequence of 16-bit code units. ASCII text is written
  \<open>js ''...''\<close>; the bullet sign U+2022 is the single code unit \<open>0x2022\<close>.
\<close>

type_synonym jschar = "16 word"
type_synonym jsstring = "jschar list"

definition js :: "string \<Rightarrow> jsstring" where
  "js s = map (\<lambda>c. of_nat (of_char c)) s"

text \<open>\<open>String.prototype.includes\<close>: substring test.\<close>

fun startsWith :: "jsstring \<Rightarrow> jsstring \<Rightarrow> bool" where
  "startsWith s [] = True"
| "startsWith [] (p # ps) = False"
| "startsWith (c # cs) (p # ps) = (c = p \<and> startsWith cs ps)"

fun includes_str :: "jsstring \<Rightarrow> jsstring \<Rightarrow> bool" where
  "includes_str [] p = (p = [])"
| "includes_str (c # cs) p = (startsWith (c # cs) p \<or> includes_str cs p)"

text \<open>
  White space as \<open>String.prototype.trim\<close> and the regular expression class \<open>\s\<close> see it
  (WhiteSpace and LineTerminator of ECMA-262): TAB, LF, VT, FF, CR, SP, NBSP, U+1680,
  U+2000 to U+200A, U+2028, U+2029, U+202F, U+205F, U+3000, U+FEFF.
\<close>

definition isWhiteSpace :: "jschar \<Rightarrow> bool" where
  "isWhiteSpace c \<longleftrightarrow>
     c = 0x09 \<or> c = 0x0A \<or> c = 0x0B \<or> c = 0x0C \<or> c = 0x0D \<or> c = 0x20 \<or> c = 0xA0 \<or>
     c = 0x1680 \<or> (0x2000 \<le> c \<and> c \<le> 0x200A) \<or> c = 0x2028 \<or> c = 0x2029 \<or>
     c = 0x202F \<or> c = 0x205F \<or> c = 0x3000 \<or> c = 0xFEFF"

definition trim :: "jsstring \<Rightarrow> jsstring" where
  "trim s = rev (dropWhile isWhiteSpace (rev (dropWhile isWhiteSpace s)))"

text \<open>
  \<open>String.prototype.toLowerCase\<close>. The letters A to Z go to a to z. Two code units
  outside ASCII have ASCII letters in their lower case: U+0130 becomes \<open>i\<close> followed by
  U+0307, and the Kelvin sign U+212A becomes \<open>k\<close>. Every other mapping of the Unicode
  tables yields code units outside ASCII only and is left as it is here: the result is
  only ever searched for ASCII keywords, which such code units cannot be part of.
\<close>

definition lowerUnit :: "jschar \<Rightarrow> jsstring" where
  "lowerUnit c =
     (if 0x41 \<le> c \<and> c \<le> 0x5A then [c + 0x20]
      else if c = 0x130 then [0x69, 0x307]
      else if c = 0x212A then [0x6B]
      else [c])"

definition toLowerCase :: "jsstring \<Rightarrow> jsstring" where
  "toLowerCase s = concat (map lowerUnit s)"

text \<open>\<open>text.split("\n")\<close>: the segments between line feeds; the empty string gives one
  empty segment.\<close>

fun split_lines :: "jsstring \<Rightarrow> jsstring list" where
  "split_lines [] = [[]]"
| "split_lines (c # cs) =
     (if c = 0x0A then [] # split_lines cs
      else (case split_lines cs of l # ls \<Rightarrow> (c # l) # ls | [] \<Rightarrow> [[c]]))"

section \<open>Upload validation\<close>

record File =
  file_type :: jsstring
  file_size :: nat

definition SUPPORTED_FORMATS :: "jsstring list" where
  "SUPPORTED_FORMATS = [js ''image/jpeg'', js ''image/png'', js ''image/gif'', js ''image/webp'']"

definition MAX_FILE_SIZE :: nat where
  "MAX_FILE_SIZE = 5 * 1024 * 1024"

definition format_message :: jsstring where
  "format_message = js ''Unsupported file format. Please use JPEG, PNG, GIF, or WebP.''"

definition size_message :: jsstring where
  "size_message = js ''File size exceeds 5MB limit.''"

text \<open>\<open>validateFile\<close> returns the rejection message, or \<open>None\<close> for JavaScript's \<open>null\<close>.\<close>

definition validateFile :: "File \<Rightarrow> jsstring option" where
  "validateFile file =
     (if \<not> List.member SUPPORTED_FORMATS (file_type file) then Some format_message
      else if file_size file > MAX_FILE_SIZE then Some size_message
      else None)"

section \<open>JavaScript values and \<open>JSON.parse\<close>\<close>

text \<open>
  The Number values that JSON text can denote: a finite double, given by its exact
  rational value, or an infinity (a numeral too large for a double). NaN cannot be
  written in JSON. The sign of zero is not recorded: neither \<open>||\<close> nor
  \<open>JSON.stringify\<close> can observe it.
\<close>

datatype jsnum = Fin rat | PosInf | NegInf

datatype jsval =
    JUndefined
  | JNull
  | JBool bool
  | JNum jsnum
  | JStr jsstring
  | JArr "jsval list"
  | JObj "(jsstring \<times> jsval) list"

datatype js_error = SyntaxError | TypeError

subsection \<open>The Number value of a decimal numeral\<close>

text \<open>\<open>ilog2 a\<close> is the integer \<open>k\<close> with \<open>2^k \<le> a < 2^(k+1)\<close>, for positive \<open>a\<close>.\<close>

definition ilog2 :: "rat \<Rightarrow> int" where
  "ilog2 a = (let (p, d) = quotient_of a; k = bitlen p - bitlen d
              in if 2 powi k \<le> a then k else k - 1)"

definition round_half_even :: "rat \<Rightarrow> int" where
  "round_half_even x =
     (let f = \<lfloor>x\<rfloor>; r = x - of_int f
      in if r < 1 / 2 then f else if 1 / 2 < r then f + 1 else if even f then f else f + 1)"

text \<open>
  IEEE 754 binary64, round to nearest, ties to even: 53 bits of mantissa, the least
  exponent of the last bit is -1074, and a result of \<open>2^1024\<close> or more is infinite.
\<close>

definition round_double :: "rat \<Rightarrow> jsnum" where
  "round_double q =
     (if q = 0 then Fin 0
      else let a = \<bar>q\<bar>;
               e = max (ilog2 a - 52) (- 1074);
               m = round_half_even (a / 2 powi e);
               v = of_int m * 2 powi e
           in if 2 ^ 1024 \<le> v then (if q < 0 then NegInf else PosInf)
              else Fin (if q < 0 then - v else v))"

subsection \<open>Tokens\<close>

datatype token =
    TLBrace | TRBrace | TLBracket | TRBracket | TColon | TComma
  | TString jsstring | TNumber jsnum | TTrue | TFalse | TNull

definition isDigit :: "jschar \<Rightarrow> bool" where
  "isDigit c \<longleftrightarrow> 0x30 \<le> c \<and> c \<le> 0x39"

definition digitVal :: "jschar \<Rightarrow> int" where
  "digitVal c = uint c - 48"

definition digits_val :: "jsstring \<Rightarrow> int" where
  "digits_val ds = foldl (\<lambda>n c. 10 * n + digitVal c) 0 ds"

definition hexVal :: "jschar \<Rightarrow> jschar option" where
  "hexVal c =
     (if 0x30 \<le> c \<and> c \<le> 0x39 then Some (c - 0x30)
      else if 0x41 \<le> c \<and> c \<le> 0x46 then Some (c - 0x37)
      else if 0x61 \<le> c \<and> c \<le> 0x66 then Some (c - 0x57)
      else None)"

text \<open>The character after a backslash, other than \<open>u\<close>: \<open>" \ / b f n r t\<close>.\<close>

definition unescape :: "jschar \<Rightarrow> jschar option" where
  "unescape c =
     (if c = 0x22 \<or> c = 0x5C \<or> c = 0x2F then Some c
      else if c = 0x62 then Some 0x08
      else if c = 0x66 then Some 0x0C
      else if c = 0x6E then Some 0x0A
      else if c = 0x72 then Some 0x0D
      else if c = 0x74 then Some 0x09
      else None)"

definition cons_result :: "jschar \<Rightarrow> (jsstring \<times> jsstring) option \<Rightarrow> (jsstring \<times> jsstring) option" where
  "cons_result c r = (case r of None \<Rightarrow> None | Some (s, rest) \<Rightarrow> Some (c # s, rest))"

text \<open>
  \<open>lex_string\<close> reads a string after its opening quote, up to and including the closing
  quote, and returns its value and the remaining input. Code units below U+0020 must be
  escaped.
\<close>

fun lex_string :: "jsstring \<Rightarrow> (jsstring \<times> jsstring) option" where
  "lex_string [] = None"
| "lex_string (c # cs) =
     (if c = 0x22 then Some ([], cs)
      else if c = 0x5C then
        (case cs of
           [] \<Rightarrow> None
         | e # cs1 \<Rightarrow>
             if e = 0x75 then
               (case cs1 of
                  h1 # h2 # h3 # h4 # cs2 \<Rightarrow>
                    (case (hexVal h1, hexVal h2, hexVal h3, hexVal h4) of
                       (Some a, Some b, Some c, Some d) \<Rightarrow>
                         cons_result (((a * 16 + b) * 16 + c) * 16 + d) (lex_string cs2)
                     | _ \<Rightarrow> None)
                | _ \<Rightarrow> None)
             else (case unescape e of
                     None \<Rightarrow> None
                   | Some u \<Rightarrow> cons_result u (lex_string cs1)))
      else if c < 0x20 then None
      else cons_result c (lex_string cs))"

text \<open>
  \<open>lex_number\<close> reads a numeral: an optional minus sign, an integer part without
  superfluous leading zero, an optional fraction and an optional exponent.
\<close>

definition lex_exponent :: "jsstring \<Rightarrow> (int \<times> jsstring) option" where
  "lex_exponent cs =
     (case cs of
        [] \<Rightarrow> Some (0, cs)
      | c # r \<Rightarrow>
          if c = 0x65 \<or> c = 0x45 then
            (let (neg, r1) = (case r of
                                [] \<Rightarrow> (False, r)
                              | s # r' \<Rightarrow> if s = 0x2D then (True, r')
                                          else if s = 0x2B then (False, r') else (False, r));
                 ds = takeWhile isDigit r1
             in if ds = [] then None
                else Some (if neg then - digits_val ds else digits_val ds,
                           dropWhile isDigit r1))
          else Some (0, cs))"

definition lex_fraction :: "jsstring \<Rightarrow> (jsstring \<times> jsstring) option" where
  "lex_fraction cs =
     (case cs of
        [] \<Rightarrow> Some ([], cs)
      | c # r \<Rightarrow>
          if c = 0x2E then
            (let ds = takeWhile isDigit r
             in if ds = [] then None else Some (ds, dropWhile isDigit r))
          else Some ([], cs))"

definition lex_number :: "jsstring \<Rightarrow> (jsnum \<times> jsstring) option" where
  "lex_number cs =
     (let (neg, cs1) = (case cs of
                          [] \<Rightarrow> (False, cs)
                        | c # r \<Rightarrow> if c = 0x2D then (True, r) else (False, cs));
          ip = takeWhile isDigit cs1
      in if ip = [] \<or> (1 < length ip \<and> hd ip = 0x30) then None
         else (case lex_fraction (dropWhile isDigit cs1) of
                 None \<Rightarrow> None
               | Some (fr, cs2) \<Rightarrow>
                   (case lex_exponent cs2 of
                      None \<Rightarrow> None
                    | Some (ex, cs3) \<Rightarrow>
                        let mv = (of_int (digits_val ip)
                                   + of_int (digits_val fr) / 10 ^ length fr) * 10 powi ex
                        in Some (round_double (if neg then - mv else mv), cs3))))"

text \<open>Each of the three readers consumes input; the tokenizer's termination rests on it.\<close>

lemma cons_result_Some:
  "cons_result c r = Some (s, rest) \<Longrightarrow> \<exists>s'. r = Some (s', rest) \<and> s = c # s'"
  by (auto simp: cons_result_def split: option.splits)

lemma lex_string_shorter: "lex_string cs = Some (s, rest) \<Longrightarrow> length rest < length cs"
proof (induction cs arbitrary: s rest rule: length_induct)
  case (1 cs)
  show ?case
  proof (cases cs)
    case Nil
    with "1.prems" show ?thesis by simp
  next
    case (Cons c cs')
    with "1.prems" consider "rest = cs'"
      | cs2 s' where "lex_string cs2 = Some (s', rest)" "length cs2 < length cs"
      by (auto split: if_splits list.splits option.splits dest!: cons_result_Some)
    then show ?thesis
    proof cases
      case 1
      with Cons show ?thesis by simp
    next
      case 2
      with "1.IH" have "length rest < length cs2" by blast
      with 2 show ?thesis by simp
    qed
  qed
qed

lemma lex_fraction_shorter: "lex_fraction cs = Some (ds, rest) \<Longrightarrow> length rest \<le> length cs"
  by (auto simp: lex_fraction_def Let_def length_dropWhile_le le_SucI split: list.splits if_splits)

lemma lex_exponent_shorter: "lex_exponent cs = Some (ex, rest) \<Longrightarrow> length rest \<le> length cs"
  by (auto simp: lex_exponent_def Let_def length_dropWhile_le le_SucI split: list.splits if_splits)

lemma dropWhile_shorter: "takeWhile P xs \<noteq> [] \<Longrightarrow> length (dropWhile P xs) < length xs"
  by (cases xs) (auto simp: length_dropWhile_le less_Suc_eq_le split: if_splits)

lemma lex_number_shorter:
  assumes "lex_number cs = Some (n, rest)"
  shows "length rest < length cs"
proof -
  obtain neg cs1 where ncs:
    "(case cs of [] \<Rightarrow> (False, cs) | c # r \<Rightarrow> if c = 0x2D then (True, r) else (False, cs)) = (neg, cs1)"
    by (cases "(case cs of [] \<Rightarrow> (False, cs) | c # r \<Rightarrow> if c = 0x2D then (True, r) else (False, cs))") auto
  then have l1: "length cs1 \<le> length cs"
    by (auto split: list.splits if_splits)
  from assms ncs obtain fr cs2 ex where ne: "takeWhile isDigit cs1 \<noteq> []"
    and fr: "lex_fraction (dropWhile isDigit cs1) = Some (fr, cs2)"
    and ex: "lex_exponent cs2 = Some (ex, rest)"
    by (auto simp: lex_number_def Let_def split: if_splits option.splits)
  from dropWhile_shorter[OF ne] lex_fraction_shorter[OF fr] lex_exponent_shorter[OF ex] l1
  show ?thesis by simp
qed

text \<open>JSON white space is TAB, LF, CR and SP only.\<close>

definition isJSONWhiteSpace :: "jschar \<Rightarrow> bool" where
  "isJSONWhiteSpace c \<longleftrightarrow> c = 0x09 \<or> c = 0x0A \<or> c = 0x0D \<or> c = 0x20"

function tokenize :: "jsstring \<Rightarrow> token list option" where
  "tokenize [] = Some []"
| "tokenize (c # cs) =
     (if isJSONWhiteSpace c then tokenize cs
      else if c = 0x7B then map_option ((#) TLBrace) (tokenize cs)
      else if c = 0x7D then map_option ((#) TRBrace) (tokenize cs)
      else if c = 0x5B then map_option ((#) TLBracket) (tokenize cs)
      else if c = 0x5D then map_option ((#) TRBracket) (tokenize cs)
      else if c = 0x3A then map_option ((#) TColon) (tokenize cs)
      else if c = 0x2C then map_option ((#) TComma) (tokenize cs)
      else if c = 0x22 then
        (case lex_string cs of
           None \<Rightarrow> None
         | Some (s, rest) \<Rightarrow> map_option ((#) (TString s)) (tokenize rest))
      else if c = 0x2D \<or> isDigit c then
        (case lex_number (c # cs) of
           None \<Rightarrow> None
         | Some (n, rest) \<Rightarrow> map_option ((#) (TNumber n)) (tokenize rest))
      else if startsWith (c # cs) (js ''true'') then map_option ((#) TTrue) (tokenize (drop 3 cs))
      else if startsWith (c # cs) (js ''false'') then map_option ((#) TFalse) (tokenize (drop 4 cs))
      else if startsWith (c # cs) (js ''null'') then map_option ((#) TNull) (tokenize (drop 3 cs))
      else None)"
  by pat_completeness auto
termination
  by (relation "measure length")
     (auto dest: lex_string_shorter lex_number_shorter simp: less_Suc_eq_le)

subsection \<open>The grammar, as a stack machine over the tokens\<close>

text \<open>
  A frame is an array or object under construction: the elements read so far (latest
  first), or the members read so far and the key whose value is being read.
\<close>

datatype frame =
    InArray "jsval list"
  | InObject "(jsstring \<times> jsval) list" jsstring

datatype pstate =
    PValue "frame list"
  | PArrayStart "frame list"
  | PObjectStart "frame list"
  | PKey "(jsstring \<times> jsval) list" "frame list"
  | PColon "(jsstring \<times> jsval) list" jsstring "frame list"
  | PArrayNext "jsval list" "frame list"
  | PObjectNext "(jsstring \<times> jsval) list" "frame list"
  | PDone jsval

text \<open>
  A member whose key is there already replaces the earlier value (the last duplicate
  wins); a new key goes to the end.
\<close>

fun define_property :: "(jsstring \<times> jsval) list \<Rightarrow> jsstring \<Rightarrow> jsval \<Rightarrow> (jsstring \<times> jsval) list" where
  "define_property [] k v = [(k, v)]"
| "define_property ((k', v') # ms) k v =
     (if k' = k then (k, v) # ms else (k', v') # define_property ms k v)"

text \<open>\<open>deliver v fs\<close>: the value \<open>v\<close> is complete; hand it to the innermost frame.\<close>

fun deliver :: "jsval \<Rightarrow> frame list \<Rightarrow> pstate" where
  "deliver v [] = PDone v"
| "deliver v (InArray acc # fs) = PArrayNext (v # acc) fs"
| "deliver v (InObject ms k # fs) = PObjectNext (define_property ms k v) fs"

fun start_value :: "frame list \<Rightarrow> token \<Rightarrow> pstate option" where
  "start_value fs TLBracket = Some (PArrayStart fs)"
| "start_value fs TLBrace = Some (PObjectStart fs)"
| "start_value fs (TString s) = Some (deliver (JStr s) fs)"
| "start_value fs (TNumber n) = Some (deliver (JNum n) fs)"
| "start_value fs TTrue = Some (deliver (JBool True) fs)"
| "start_value fs TFalse = Some (deliver (JBool False) fs)"
| "start_value fs TNull = Some (deliver JNull fs)"
| "start_value fs _ = None"

fun pstep :: "pstate \<Rightarrow> token \<Rightarrow> pstate option" where
  "pstep (PValue fs) t = start_value fs t"
| "pstep (PArrayStart fs) t =
     (if t = TRBracket then Some (deliver (JArr []) fs) else start_value (InArray [] # fs) t)"
| "pstep (PObjectStart fs) t =
     (case t of
        TRBrace \<Rightarrow> Some (deliver (JObj []) fs)
      | TString k \<Rightarrow> Some (PColon [] k fs)
      | _ \<Rightarrow> None)"
| "pstep (PKey ms fs) t = (case t of TString k \<Rightarrow> Some (PColon ms k fs) | _ \<Rightarrow> None)"
| "pstep (PColon ms k fs) t = (if t = TColon then Some (PValue (InObject ms k # fs)) else None)"
| "pstep (PArrayNext acc fs) t =
     (case t of
        TComma \<Rightarrow> Some (PValue (InArray acc # fs))
      | TRBracket \<Rightarrow> Some (deliver (JArr (rev acc)) fs)
      | _ \<Rightarrow> None)"
| "pstep (PObjectNext ms fs) t =
     (case t of
        TComma \<Rightarrow> Some (PKey ms fs)
      | TRBrace \<Rightarrow> Some (deliver (JObj ms) fs)
      | _ \<Rightarrow> None)"
| "pstep (PDone v) t = None"

fun prun :: "pstate \<Rightarrow> token list \<Rightarrow> pstate option" where
  "prun st [] = Some st"
| "prun st (t # ts) = (case pstep st t of None \<Rightarrow> None | Some st' \<Rightarrow> prun st' ts)"

text \<open>\<open>JSON.parse\<close>: the value of a JSON text, or a SyntaxError.\<close>

definition JSON_parse :: "jsstring \<Rightarrow> js_error + jsval" where
  "JSON_parse text =
     (case tokenize text of
        None \<Rightarrow> Inl SyntaxError
      | Some ts \<Rightarrow>
          (case prun (PValue []) ts of
             Some (PDone v) \<Rightarrow> Inr v
           | _ \<Rightarrow> Inl SyntaxError))"

section \<open>The response normalizer\<close>

record AnalysisResponse =
  uxInsights :: jsval
  visualDesign :: jsval
  bestPractices :: jsval
  annotations :: jsval

text \<open>The property names of the response: the values of \<open>keyof AnalysisResponse\<close>.\<close>

datatype key = UxInsights | VisualDesign | BestPractices | Annotations

fun key_name :: "key \<Rightarrow> jsstring" where
  "key_name UxInsights = js ''uxInsights''"
| "key_name VisualDesign = js ''visualDesign''"
| "key_name BestPractices = js ''bestPractices''"
| "key_name Annotations = js ''annotations''"

text \<open>
  \<open>parsed.name\<close> for one of the four names: a TypeError on \<open>null\<close> and \<open>undefined\<close>,
  the member of an object, and \<open>undefined\<close> where there is none. Booleans, numbers,
  strings and arrays have no property of these names.
\<close>

fun get_property :: "jsval \<Rightarrow> key \<Rightarrow> js_error + jsval" where
  "get_property JUndefined k = Inl TypeError"
| "get_property JNull k = Inl TypeError"
| "get_property (JObj ms) k =
     Inr (case map_of ms (key_name k) of None \<Rightarrow> JUndefined | Some v \<Rightarrow> v)"
| "get_property v k = Inr JUndefined"

fun truthy :: "jsval \<Rightarrow> bool" where
  "truthy JUndefined = False"
| "truthy JNull = False"
| "truthy (JBool b) = b"
| "truthy (JNum n) = (n \<noteq> Fin 0)"
| "truthy (JStr s) = (s \<noteq> [])"
| "truthy (JArr xs) = True"
| "truthy (JObj ms) = True"

text \<open>\<open>a || b\<close>\<close>

definition js_or :: "jsval \<Rightarrow> jsval \<Rightarrow> jsval" where
  "js_or a b = (if truthy a then a else b)"

text \<open>The body of \<open>try\<close>: any error raised in it is the left value.\<close>

definition try_block :: "jsstring \<Rightarrow> js_error + AnalysisResponse" where
  "try_block text =
     (case JSON_parse text of
        Inl e \<Rightarrow> Inl e
      | Inr parsed \<Rightarrow>
          (case get_property parsed UxInsights of
             Inl e \<Rightarrow> Inl e
           | Inr ux \<Rightarrow>
               (case get_property parsed VisualDesign of
                  Inl e \<Rightarrow> Inl e
                | Inr vd \<Rightarrow>
                    (case get_property parsed BestPractices of
                       Inl e \<Rightarrow> Inl e
                     | Inr bp \<Rightarrow>
                         (case get_property parsed Annotations of
                            Inl e \<Rightarrow> Inl e
                          | Inr an \<Rightarrow>
                              Inr \<lparr>uxInsights = js_or ux (JArr []),
                                   visualDesign = js_or vd (JArr []),
                                   bestPractices = js_or bp (JArr []),
                                   annotations = js_or an (JArr [])\<rparr>)))))"

subsection \<open>The handler of \<open>catch\<close>: scanning the lines\<close>

text \<open>\<open>/^\d+\./.test(s)\<close>\<close>

definition test_numbered :: "jsstring \<Rightarrow> bool" where
  "test_numbered s \<longleftrightarrow> takeWhile isDigit s \<noteq> [] \<and> startsWith (dropWhile isDigit s) (js ''.'')"

text \<open>
  \<open>line.replace(/^[-\<bullet>\d.]\s*/, "")\<close>, where \<open>\<bullet>\<close> is U+2022: when the first code unit
  of the line is a hyphen, a bullet, a digit or a period, that one code unit and the
  white space after it are removed; otherwise the line is returned as it is.
\<close>

definition isMarker :: "jschar \<Rightarrow> bool" where
  "isMarker c \<longleftrightarrow> c = 0x2D \<or> c = 0x2022 \<or> isDigit c \<or> c = 0x2E"

definition replace_marker :: "jsstring \<Rightarrow> jsstring" where
  "replace_marker line =
     (case line of
        [] \<Rightarrow> []
      | c # cs \<Rightarrow> if isMarker c then dropWhile isWhiteSpace cs else line)"

fun get_section :: "AnalysisResponse \<Rightarrow> key \<Rightarrow> jsval" where
  "get_section r UxInsights = uxInsights r"
| "get_section r VisualDesign = visualDesign r"
| "get_section r BestPractices = bestPractices r"
| "get_section r Annotations = annotations r"

fun set_section :: "AnalysisResponse \<Rightarrow> key \<Rightarrow> jsval \<Rightarrow> AnalysisResponse" where
  "set_section r UxInsights v = r\<lparr>uxInsights := v\<rparr>"
| "set_section r VisualDesign v = r\<lparr>visualDesign := v\<rparr>"
| "set_section r BestPractices v = r\<lparr>bestPractices := v\<rparr>"
| "set_section r Annotations v = r\<lparr>annotations := v\<rparr>"

fun isArray :: "jsval \<Rightarrow> bool" where
  "isArray (JArr xs) = True"
| "isArray v = False"

text \<open>\<open>response[section].push(item)\<close>, reached for arrays only.\<close>

definition push_section :: "AnalysisResponse \<Rightarrow> key \<Rightarrow> jsval \<Rightarrow> AnalysisResponse" where
  "push_section r k item =
     (case get_section r k of
        JArr xs \<Rightarrow> set_section r k (JArr (xs @ [item]))
      | _ \<Rightarrow> r)"

text \<open>One turn of the loop over the lines: the state is \<open>currentSection\<close> and \<open>response\<close>.\<close>

definition scan_line :: "key \<times> AnalysisResponse \<Rightarrow> jsstring \<Rightarrow> key \<times> AnalysisResponse" where
  "scan_line st line =
     (let currentSection = fst st; response = snd st; lowerLine = toLowerCase line
      in if includes_str lowerLine (js ''ux'') \<or> includes_str lowerLine (js ''usability'')
           then (UxInsights, response)
         else if includes_str lowerLine (js ''visual'') \<or> includes_str lowerLine (js ''design'')
           then (VisualDesign, response)
         else if includes_str lowerLine (js ''best'') \<or> includes_str lowerLine (js ''practice'')
           then (BestPractices, response)
         else if startsWith (trim line) (js ''-'') \<or> startsWith (trim line) [0x2022]
                 \<or> test_numbered (trim line)
           then (let cleanLine = trim (replace_marker line)
                 in if cleanLine \<noteq> [] \<and> isArray (get_section response currentSection)
                    then (currentSection, push_section response currentSection (JStr cleanLine))
                    else (currentSection, response))
         else (currentSection, response))"

text \<open>\<open>v.length === 0\<close>\<close>

fun length_is_zero :: "jsval \<Rightarrow> bool" where
  "length_is_zero (JArr xs) = (xs = [])"
| "length_is_zero (JStr s) = (s = [])"
| "length_is_zero v = False"

definition initial_response :: AnalysisResponse where
  "initial_response =
     \<lparr>uxInsights = JArr [], visualDesign = JArr [], bestPractices = JArr [], annotations = JArr []\<rparr>"

text \<open>
  The non-blank lines of the text (\<open>text.split("\n").filter((line) => line.trim())\<close>)
  and the loop over them, which starts in the section \<open>uxInsights\<close>.
\<close>

definition nonblank_lines :: "jsstring \<Rightarrow> jsstring list" where
  "nonblank_lines text = filter (\<lambda>line. trim line \<noteq> []) (split_lines text)"

definition scan_lines :: "jsstring \<Rightarrow> AnalysisResponse" where
  "scan_lines text = snd (foldl scan_line (UxInsights, initial_response) (nonblank_lines text))"

definition catch_block :: "jsstring \<Rightarrow> AnalysisResponse" where
  "catch_block text =
     (let response = scan_lines text
      in if length_is_zero (uxInsights response) \<and> length_is_zero (visualDesign response)
            \<and> length_is_zero (bestPractices response)
         then response\<lparr>uxInsights := JArr [JStr text]\<rparr>
         else response)"

text \<open>
  \<open>parseOpenRouterResponse\<close>: the \<open>catch\<close> without a binding handles every error of the
  \<open>try\<close> body, and its handler raises none.
\<close>

definition parseOpenRouterResponse :: "jsstring \<Rightarrow> js_error + AnalysisResponse" where
  "parseOpenRouterResponse text =
     (case try_block text of
        Inr r \<Rightarrow> Inr r
      | Inl e \<Rightarrow> Inr (catch_block text))"

section \<open>Properties of the upload validation\<close>

text \<open>
  Claim C6. A file whose media type is not one of the four supported formats, compared
  code unit by code unit, is rejected with the format message, whatever its size: the
  format is checked first, and the format message is not the size message.
\<close>

theorem validateFile_unsupported_format:
  assumes "file_type file \<notin> {js ''image/jpeg'', js ''image/png'', js ''image/gif'', js ''image/webp''}"
  shows "validateFile file = Some format_message \<and> format_message \<noteq> size_message"
proof -
  have "validateFile file = Some format_message"
    using assms by (simp add: validateFile_def SUPPORTED_FORMATS_def)
  moreover have "format_message \<noteq> size_message"
    by (simp add: format_message_def size_message_def js_def)
  ultimately show ?thesis by simp
qed

theorem validateFile_unsupported_format_witness:
  "js ''image/PNG'' \<notin> {js ''image/jpeg'', js ''image/png'', js ''image/gif'', js ''image/webp''}
   \<and> validateFile \<lparr>file_type = js ''image/PNG'', file_size = 6000000\<rparr> = Some format_message
   \<and> validateFile \<lparr>file_type = js ''image/PNG'', file_size = 1\<rparr> = Some format_message
   \<and> format_message \<noteq> size_message"
proof -
  have h: "js ''image/PNG'' \<notin> {js ''image/jpeg'', js ''image/png'', js ''image/gif'', js ''image/webp''}"
    by (simp add: js_def)
  show ?thesis
    using h validateFile_unsupported_format [of "\<lparr>file_type = js ''image/PNG'', file_size = 6000000\<rparr>"]
      validateFile_unsupported_format [of "\<lparr>file_type = js ''image/PNG'', file_size = 1\<rparr>"]
    by simp
qed

text \<open>
  Claim C7. A file of a supported format is accepted exactly when its size is at most
  5,242,880 bytes: that size itself is accepted, and any larger size is rejected with
  the size message.
\<close>

theorem validateFile_size_limit:
  assumes "file_type file \<in> {js ''image/jpeg'', js ''image/png'', js ''image/gif'', js ''image/webp''}"
  shows "(file_size file \<le> 5242880 \<longrightarrow> validateFile file = None)
       \<and> (5242880 < file_size file \<longrightarrow> validateFile file = Some size_message)"
  using assms by (auto simp: validateFile_def SUPPORTED_FORMATS_def MAX_FILE_SIZE_def)

theorem validateFile_size_limit_witness:
  "validateFile \<lparr>file_type = js ''image/webp'', file_size = 5242880\<rparr> = None
   \<and> validateFile \<lparr>file_type = js ''image/webp'', file_size = 5242881\<rparr> = Some size_message"
  using validateFile_size_limit [of "\<lparr>file_type = js ''image/webp'', file_size = 5242880\<rparr>"]
    validateFile_size_limit [of "\<lparr>file_type = js ''image/webp'', file_size = 5242881\<rparr>"]
  by simp

section \<open>Properties of the response normalizer\<close>

text \<open>
  Claim C1. On the text of five lines \<open>UX Insights\<close>, \<open>- Good contrast\<close>,
  \<open>- Confusing nav\<close>, \<open>Best Practices\<close>, \<open>1. Add alt text\<close> the two hyphen items lose
  their marker, but the numbered item loses its digit only: the replacement removes a
  single code unit of the marker, so the item is stored as \<open>. Add alt text\<close>.
\<close>

theorem numbered_item_keeps_period:
  "parseOpenRouterResponse
     (js ''UX Insights'' @ [0x0A] @ js ''- Good contrast'' @ [0x0A] @ js ''- Confusing nav'' @ [0x0A]
      @ js ''Best Practices'' @ [0x0A] @ js ''1. Add alt text'')
   = Inr \<lparr>uxInsights = JArr [JStr (js ''Good contrast''), JStr (js ''Confusing nav'')],
          visualDesign = JArr [],
          bestPractices = JArr [JStr (js ''. Add alt text'')],
          annotations = JArr []\<rparr>"
  by code_simp

text \<open>Arrays of strings, the shape of the three lists of feedback.\<close>

fun is_string :: "jsval \<Rightarrow> bool" where
  "is_string (JStr s) = True"
| "is_string v = False"

fun is_string_array :: "jsval \<Rightarrow> bool" where
  "is_string_array (JArr xs) = list_all is_string xs"
| "is_string_array v = False"

text \<open>
  What the loop over the lines keeps true: the current section is one of the three
  lists, the three lists are arrays of strings, and \<open>annotations\<close> is the empty array.
\<close>

definition scan_inv :: "key \<times> AnalysisResponse \<Rightarrow> bool" where
  "scan_inv st \<longleftrightarrow>
     fst st \<noteq> Annotations \<and> is_string_array (uxInsights (snd st))
     \<and> is_string_array (visualDesign (snd st)) \<and> is_string_array (bestPractices (snd st))
     \<and> annotations (snd st) = JArr []"

lemma is_string_arrayE: "is_string_array v \<Longrightarrow> \<exists>xs. v = JArr xs \<and> list_all is_string xs"
  by (cases v) auto

lemma push_section_inv:
  assumes "scan_inv (k, r)"
  shows "scan_inv (k, push_section r k (JStr s))"
proof (cases k)
  case UxInsights
  with assms show ?thesis
    by (auto simp: scan_inv_def push_section_def dest!: is_string_arrayE)
next
  case VisualDesign
  with assms show ?thesis
    by (auto simp: scan_inv_def push_section_def dest!: is_string_arrayE)
next
  case BestPractices
  with assms show ?thesis
    by (auto simp: scan_inv_def push_section_def dest!: is_string_arrayE)
next
  case Annotations
  with assms show ?thesis by (simp add: scan_inv_def)
qed

lemma scan_inv_section: "scan_inv (k, r) \<Longrightarrow> k' \<noteq> Annotations \<Longrightarrow> scan_inv (k', r)"
  by (simp add: scan_inv_def)

lemma scan_line_inv: "scan_inv st \<Longrightarrow> scan_inv (scan_line st line)"
  by (cases st) (auto simp: scan_line_def Let_def intro: push_section_inv scan_inv_section)

lemma foldl_scan_line_inv: "scan_inv st \<Longrightarrow> scan_inv (foldl scan_line st ls)"
  by (induction ls arbitrary: st) (simp_all add: scan_line_inv)

lemma scan_lines_inv: "scan_inv (fst (foldl scan_line (UxInsights, initial_response) (nonblank_lines text)), scan_lines text)"
proof -
  have "scan_inv (UxInsights, initial_response)"
    by (simp add: scan_inv_def initial_response_def)
  from foldl_scan_line_inv[OF this, of "nonblank_lines text"] show ?thesis
    by (simp add: scan_lines_def)
qed

lemma scan_lines_fields:
  "is_string_array (uxInsights (scan_lines text))"
  "is_string_array (visualDesign (scan_lines text))"
  "is_string_array (bestPractices (scan_lines text))"
  "annotations (scan_lines text) = JArr []"
  using scan_lines_inv[of "text"] by (simp_all add: scan_inv_def)

lemma catch_block_fields:
  "is_string_array (uxInsights (catch_block text))"
  "is_string_array (visualDesign (catch_block text))"
  "is_string_array (bestPractices (catch_block text))"
  "annotations (catch_block text) = JArr []"
  using scan_lines_fields[of "text"] by (simp_all add: catch_block_def Let_def)

text \<open>
  Claim C9. When the body of \<open>try\<close> raises, the result is the handler's, and its
  \<open>annotations\<close> is the empty array, after the scan of the lines and after the
  replacement of an empty scan by the whole text alike: only the structured path can
  return annotations.
\<close>

theorem annotations_empty_in_fallback:
  assumes "try_block text = Inl e"
  shows "parseOpenRouterResponse text = Inr (catch_block text)
         \<and> annotations (scan_lines text) = JArr []
         \<and> annotations (catch_block text) = JArr []"
  using assms by (simp add: parseOpenRouterResponse_def scan_lines_fields catch_block_fields)

theorem annotations_empty_in_fallback_witness:
  "try_block (js ''- Good contrast'') = Inl SyntaxError
   \<and> parseOpenRouterResponse (js ''- Good contrast'') = Inr (catch_block (js ''- Good contrast''))
   \<and> uxInsights (catch_block (js ''- Good contrast'')) = JArr [JStr (js ''Good contrast'')]
   \<and> annotations (scan_lines (js ''- Good contrast'')) = JArr []
   \<and> annotations (catch_block (js ''- Good contrast'')) = JArr []"
proof -
  have t: "try_block (js ''- Good contrast'') = Inl SyntaxError" by code_simp
  have u: "uxInsights (catch_block (js ''- Good contrast'')) = JArr [JStr (js ''Good contrast'')]"
    by code_simp
  from annotations_empty_in_fallback[OF t] t u show ?thesis by simp
qed

text \<open>
  Claim C8. When the body of \<open>try\<close> raises and the scan of the lines leaves the three
  lists empty, the result has the whole text as the only element of \<open>uxInsights\<close> and
  the other lists empty; the empty text gives \<open>uxInsights\<close> with the empty string as
  its only element.
\<close>

theorem degenerate_fallback:
  assumes "try_block text = Inl e"
    and "uxInsights (scan_lines text) = JArr []"
    and "visualDesign (scan_lines text) = JArr []"
    and "bestPractices (scan_lines text) = JArr []"
  shows "parseOpenRouterResponse text =
           Inr \<lparr>uxInsights = JArr [JStr text], visualDesign = JArr [],
                bestPractices = JArr [], annotations = JArr []\<rparr>"
proof -
  have "catch_block text = (scan_lines text)\<lparr>uxInsights := JArr [JStr text]\<rparr>"
    using assms(2-4) by (simp add: catch_block_def Let_def)
  moreover have "annotations (scan_lines text) = JArr []"
    by (rule scan_lines_fields)
  ultimately have "catch_block text =
      \<lparr>uxInsights = JArr [JStr text], visualDesign = JArr [],
       bestPractices = JArr [], annotations = JArr []\<rparr>"
    using assms(3,4) by (cases "scan_lines text") simp
  with assms(1) show ?thesis by (simp add: parseOpenRouterResponse_def)
qed

theorem degenerate_fallback_witness:
  "try_block [] = Inl SyntaxError
   \<and> uxInsights (scan_lines []) = JArr [] \<and> visualDesign (scan_lines []) = JArr []
   \<and> bestPractices (scan_lines []) = JArr []
   \<and> parseOpenRouterResponse [] =
       Inr \<lparr>uxInsights = JArr [JStr []], visualDesign = JArr [],
            bestPractices = JArr [], annotations = JArr []\<rparr>"
proof -
  have t: "try_block [] = Inl SyntaxError" by code_simp
  have s: "scan_lines [] = initial_response" by code_simp
  from s have u: "uxInsights (scan_lines []) = JArr []" "visualDesign (scan_lines []) = JArr []"
    "bestPractices (scan_lines []) = JArr []" by (simp_all add: initial_response_def)
  from degenerate_fallback[OF t u] t u show ?thesis by simp
qed

text \<open>A text between double quotes, for writing JSON examples.\<close>

definition quoted :: "string \<Rightarrow> jsstring" where
  "quoted s = [0x22] @ js s @ [0x22]"

text \<open>\<open>JSON.parse\<close> never returns \<open>undefined\<close>.\<close>

fun done_defined :: "pstate \<Rightarrow> bool" where
  "done_defined (PDone v) = (v \<noteq> JUndefined)"
| "done_defined st = True"

lemma deliver_defined: "v \<noteq> JUndefined \<Longrightarrow> done_defined (deliver v fs)"
  by (cases "(v, fs)" rule: deliver.cases) auto

lemma start_value_defined: "start_value fs t = Some st \<Longrightarrow> done_defined st"
  by (cases "(fs, t)" rule: start_value.cases) (auto simp: deliver_defined)

lemma pstep_defined: "pstep st t = Some st' \<Longrightarrow> done_defined st'"
  by (cases "(st, t)" rule: pstep.cases)
     (auto simp: deliver_defined start_value_defined split: if_splits token.splits)

lemma prun_defined: "prun st ts = Some st' \<Longrightarrow> done_defined st \<Longrightarrow> done_defined st'"
  by (induction ts arbitrary: st) (auto split: option.splits dest: pstep_defined)

lemma JSON_parse_defined: "JSON_parse text = Inr v \<Longrightarrow> v \<noteq> JUndefined"
proof -
  assume "JSON_parse text = Inr v"
  then obtain ts where "prun (PValue []) ts = Some (PDone v)"
    by (auto simp: JSON_parse_def split: option.splits pstate.splits)
  from prun_defined[OF this] show ?thesis by simp
qed




text \<open>The structured example of the specification, and a record whose three members
  are a string, a boolean and an object.\<close>

definition example_record :: jsstring where
  "example_record =
     js ''{'' @ quoted ''uxInsights'' @ js '':['' @ quoted ''a'' @ js ''],''
     @ quoted ''visualDesign'' @ js '':[],''
     @ quoted ''bestPractices'' @ js '':['' @ quoted ''b'' @ js '']}''"








lemma get_property_nonrecord:
  assumes "v \<noteq> JNull" "v \<noteq> JUndefined" "\<forall>ms k. v = JObj ms \<longrightarrow> map_of ms (key_name k) = None"
  shows "get_property v k = Inr JUndefined"
  using assms by (cases v) auto

lemma catch_block_not_empty:
  "catch_block text \<noteq> \<lparr>uxInsights = JArr [], visualDesign = JArr [], bestPractices = JArr [], annotations = JArr []\<rparr>"
proof
  assume a: "catch_block text = \<lparr>uxInsights = JArr [], visualDesign = JArr [], bestPractices = JArr [], annotations = JArr []\<rparr>"
  show False
  proof (cases "length_is_zero (uxInsights (scan_lines text)) \<and> length_is_zero (visualDesign (scan_lines text))
            \<and> length_is_zero (bestPractices (scan_lines text))")
    case True
    then have "uxInsights (catch_block text) = JArr [JStr text]"
      by (simp add: catch_block_def Let_def)
    with a show False by simp
  next
    case False
    then have "catch_block text = scan_lines text"
      by (auto simp add: catch_block_def Let_def)
    with a False show False by simp
  qed
qed

text \<open>
  Claim C10. When the text is JSON for a value other than \<open>null\<close> that has none of the
  four properties (a number, a string, a boolean, an array, or an object without them,
  such as \<open>[]\<close> or \<open>42\<close>), the structured path returns the four empty arrays; this is
  not the handler's result, so the text itself appears nowhere in the response.
\<close>

theorem unexpected_json_gives_empty_result:
  assumes "JSON_parse text = Inr v" and "v \<noteq> JNull"
    and "\<forall>ms k. v = JObj ms \<longrightarrow> map_of ms (key_name k) = None"
  shows "parseOpenRouterResponse text =
           Inr \<lparr>uxInsights = JArr [], visualDesign = JArr [], bestPractices = JArr [], annotations = JArr []\<rparr>
         \<and> parseOpenRouterResponse text \<noteq> Inr (catch_block text)"
proof -
  have g: "get_property v k = Inr JUndefined" for k
    using get_property_nonrecord[OF assms(2) JSON_parse_defined[OF assms(1)] assms(3)] .
  have "try_block text =
      Inr \<lparr>uxInsights = JArr [], visualDesign = JArr [], bestPractices = JArr [], annotations = JArr []\<rparr>"
    using assms(1) by (simp add: try_block_def g js_or_def)
  then have "parseOpenRouterResponse text =
      Inr \<lparr>uxInsights = JArr [], visualDesign = JArr [], bestPractices = JArr [], annotations = JArr []\<rparr>"
    by (simp add: parseOpenRouterResponse_def)
  then show ?thesis using catch_block_not_empty[of "text"] by simp
qed

theorem unexpected_json_gives_empty_result_witness:
  "JSON_parse (js ''[]'') = Inr (JArr []) \<and> JSON_parse (js ''42'') = Inr (JNum (Fin 42))
   \<and> parseOpenRouterResponse (js ''[]'') =
       Inr \<lparr>uxInsights = JArr [], visualDesign = JArr [], bestPractices = JArr [], annotations = JArr []\<rparr>
   \<and> parseOpenRouterResponse (js ''42'') =
       Inr \<lparr>uxInsights = JArr [], visualDesign = JArr [], bestPractices = JArr [], annotations = JArr []\<rparr>"
proof -
  have a: "JSON_parse (js ''[]'') = Inr (JArr [])" by code_simp
  have n: "JSON_parse (js ''42'') = Inr (JNum (Fin 42))" by code_simp
  from unexpected_json_gives_empty_result[OF a] unexpected_json_gives_empty_result[OF n] a n
  show ?thesis by simp
qed

lemma get_property_record:
  "get_property (JObj ms) k = Inr (case map_of ms (key_name k) of None \<Rightarrow> JUndefined | Some v \<Rightarrow> v)"
  by simp

text \<open>
  Claim C3. When the text is JSON for an object, the response is the one the \<open>try\<close>
  body builds and the handler is not run. Each of the four properties is the empty
  array when the object has no such member and the member's array, as it is, when the
  member is an array; in general it is \<open>member || []\<close>. The object with
  \<open>uxInsights\<close> \<open>["a"]\<close>, \<open>visualDesign\<close> \<open>[]\<close> and \<open>bestPractices\<close> \<open>["b"]\<close> gives these
  three lists and empty annotations.
\<close>

theorem structured_record_is_returned:
  assumes "JSON_parse text = Inr (JObj ms)"
  shows "\<exists>r. parseOpenRouterResponse text = Inr r \<and> try_block text = Inr r
     \<and> (\<forall>k. map_of ms (key_name k) = None \<longrightarrow> get_section r k = JArr [])
     \<and> (\<forall>k xs. map_of ms (key_name k) = Some (JArr xs) \<longrightarrow> get_section r k = JArr xs)
     \<and> (\<forall>k v. map_of ms (key_name k) = Some v \<longrightarrow> get_section r k = js_or v (JArr []))"
proof -
  let ?f = "\<lambda>k. js_or (case map_of ms (key_name k) of None \<Rightarrow> JUndefined | Some v \<Rightarrow> v) (JArr [])"
  let ?r = "\<lparr>uxInsights = ?f UxInsights, visualDesign = ?f VisualDesign,
             bestPractices = ?f BestPractices, annotations = ?f Annotations\<rparr>"
  have t: "try_block text = Inr ?r"
    using assms by (simp add: try_block_def)
  then have p: "parseOpenRouterResponse text = Inr ?r"
    by (simp add: parseOpenRouterResponse_def)
  have s: "get_section ?r k = ?f k" for k
    by (cases k) simp_all
  have "(\<forall>k. map_of ms (key_name k) = None \<longrightarrow> get_section ?r k = JArr [])"
    unfolding s by (simp add: js_or_def)
  moreover have "(\<forall>k xs. map_of ms (key_name k) = Some (JArr xs) \<longrightarrow> get_section ?r k = JArr xs)"
    unfolding s by (simp add: js_or_def)
  moreover have "(\<forall>k v. map_of ms (key_name k) = Some v \<longrightarrow> get_section ?r k = js_or v (JArr []))"
    unfolding s by simp
  ultimately show ?thesis using t p by blast
qed

theorem structured_record_is_returned_witness:
  "JSON_parse example_record =
     Inr (JObj [(js ''uxInsights'', JArr [JStr (js ''a'')]), (js ''visualDesign'', JArr []),
                (js ''bestPractices'', JArr [JStr (js ''b'')])])
   \<and> parseOpenRouterResponse example_record =
       Inr \<lparr>uxInsights = JArr [JStr (js ''a'')], visualDesign = JArr [],
            bestPractices = JArr [JStr (js ''b'')], annotations = JArr []\<rparr>
   \<and> try_block example_record = parseOpenRouterResponse example_record"
proof -
  have j: "JSON_parse example_record =
     Inr (JObj [(js ''uxInsights'', JArr [JStr (js ''a'')]), (js ''visualDesign'', JArr []),
                (js ''bestPractices'', JArr [JStr (js ''b'')])])" by code_simp
  have p: "parseOpenRouterResponse example_record =
       Inr \<lparr>uxInsights = JArr [JStr (js ''a'')], visualDesign = JArr [],
            bestPractices = JArr [JStr (js ''b'')], annotations = JArr []\<rparr>" by code_simp
  from structured_record_is_returned[OF j] have "try_block example_record = parseOpenRouterResponse example_record"
    by auto
  with j p show ?thesis by simp
qed

text \<open>
  The conditions of the loop body, by name: the three keyword tests on the line in
  lower case, the test for a list marker on the trimmed line, and the condition under
  which an item is pushed.
\<close>

definition mentions_ux :: "jsstring \<Rightarrow> bool" where
  "mentions_ux line \<longleftrightarrow>
     includes_str (toLowerCase line) (js ''ux'') \<or> includes_str (toLowerCase line) (js ''usability'')"

definition mentions_visual :: "jsstring \<Rightarrow> bool" where
  "mentions_visual line \<longleftrightarrow>
     includes_str (toLowerCase line) (js ''visual'') \<or> includes_str (toLowerCase line) (js ''design'')"

definition mentions_best :: "jsstring \<Rightarrow> bool" where
  "mentions_best line \<longleftrightarrow>
     includes_str (toLowerCase line) (js ''best'') \<or> includes_str (toLowerCase line) (js ''practice'')"

definition is_bullet :: "jsstring \<Rightarrow> bool" where
  "is_bullet line \<longleftrightarrow>
     startsWith (trim line) (js ''-'') \<or> startsWith (trim line) [0x2022] \<or> test_numbered (trim line)"

definition appends :: "AnalysisResponse \<Rightarrow> key \<Rightarrow> jsstring \<Rightarrow> bool" where
  "appends r cur line \<longleftrightarrow>
     is_bullet line \<and> trim (replace_marker line) \<noteq> [] \<and> isArray (get_section r cur)"

lemma push_section_changes:
  "isArray (get_section r k) \<Longrightarrow> push_section r k item \<noteq> r"
proof -
  assume "isArray (get_section r k)"
  then obtain xs where xs: "get_section r k = JArr xs" by (cases "get_section r k") auto
  then have "get_section (push_section r k item) k = JArr (xs @ [item])"
    by (cases k) (simp_all add: push_section_def)
  with xs show ?thesis by auto
qed

text \<open>
  Claim C5. One turn of the loop does exactly one thing. The keyword tests come first,
  in the order \<open>ux\<close>, \<open>visual\<close>, \<open>best\<close>, as substring tests on the line in lower
  case; a line that passes one only sets the current section and leaves the response as
  it is, also when it starts with a list marker. Only a line that passes none of them
  is looked at as an item: either one item is pushed to the current section, which is
  not switched, or nothing changes.
\<close>

theorem scan_line_one_action:
  "(mentions_ux line \<longrightarrow> scan_line (cur, r) line = (UxInsights, r))
   \<and> (\<not> mentions_ux line \<and> mentions_visual line \<longrightarrow> scan_line (cur, r) line = (VisualDesign, r))
   \<and> (\<not> mentions_ux line \<and> \<not> mentions_visual line \<and> mentions_best line \<longrightarrow>
        scan_line (cur, r) line = (BestPractices, r))
   \<and> (\<not> mentions_ux line \<and> \<not> mentions_visual line \<and> \<not> mentions_best line \<and> appends r cur line \<longrightarrow>
        scan_line (cur, r) line = (cur, push_section r cur (JStr (trim (replace_marker line))))
        \<and> push_section r cur (JStr (trim (replace_marker line))) \<noteq> r)
   \<and> (\<not> mentions_ux line \<and> \<not> mentions_visual line \<and> \<not> mentions_best line \<and> \<not> appends r cur line \<longrightarrow>
        scan_line (cur, r) line = (cur, r))
   \<and> ((mentions_ux line \<or> mentions_visual line \<or> mentions_best line) \<and> is_bullet line \<longrightarrow>
        snd (scan_line (cur, r) line) = r)"
proof -
  have ux: "mentions_ux line \<Longrightarrow> scan_line (cur, r) line = (UxInsights, r)"
    by (simp add: scan_line_def mentions_ux_def Let_def)
  have vis: "\<not> mentions_ux line \<Longrightarrow> mentions_visual line \<Longrightarrow> scan_line (cur, r) line = (VisualDesign, r)"
    by (simp add: scan_line_def mentions_ux_def mentions_visual_def Let_def)
  have best: "\<not> mentions_ux line \<Longrightarrow> \<not> mentions_visual line \<Longrightarrow> mentions_best line
      \<Longrightarrow> scan_line (cur, r) line = (BestPractices, r)"
    by (simp add: scan_line_def mentions_ux_def mentions_visual_def mentions_best_def Let_def)
  have app: "\<not> mentions_ux line \<Longrightarrow> \<not> mentions_visual line \<Longrightarrow> \<not> mentions_best line
      \<Longrightarrow> appends r cur line
      \<Longrightarrow> scan_line (cur, r) line = (cur, push_section r cur (JStr (trim (replace_marker line))))"
    by (simp add: scan_line_def mentions_ux_def mentions_visual_def mentions_best_def
        appends_def is_bullet_def Let_def)
  have ign: "\<not> mentions_ux line \<Longrightarrow> \<not> mentions_visual line \<Longrightarrow> \<not> mentions_best line
      \<Longrightarrow> \<not> appends r cur line \<Longrightarrow> scan_line (cur, r) line = (cur, r)"
    by (auto simp add: scan_line_def mentions_ux_def mentions_visual_def mentions_best_def
        appends_def is_bullet_def Let_def)
  have chg: "appends r cur line \<Longrightarrow> push_section r cur (JStr (trim (replace_marker line))) \<noteq> r"
    by (simp add: appends_def push_section_changes)
  have sw: "mentions_ux line \<or> mentions_visual line \<or> mentions_best line
      \<Longrightarrow> snd (scan_line (cur, r) line) = r"
    using ux vis best by (cases "mentions_ux line"; cases "mentions_visual line") auto
  show ?thesis using ux vis best app ign chg sw by blast
qed

theorem scan_line_one_action_witness:
  "mentions_ux (js ''- UX tip'') \<and> is_bullet (js ''- UX tip'')
   \<and> scan_line (BestPractices, initial_response) (js ''- UX tip'') = (UxInsights, initial_response)
   \<and> \<not> mentions_ux (js ''1. Design first'') \<and> mentions_visual (js ''1. Design first'')
   \<and> scan_line (BestPractices, initial_response) (js ''1. Design first'') = (VisualDesign, initial_response)
   \<and> \<not> mentions_ux (js ''- Best way'') \<and> \<not> mentions_visual (js ''- Best way'')
   \<and> mentions_best (js ''- Best way'')
   \<and> scan_line (UxInsights, initial_response) (js ''- Best way'') = (BestPractices, initial_response)
   \<and> appends initial_response VisualDesign (js ''- Good contrast'')
   \<and> scan_line (VisualDesign, initial_response) (js ''- Good contrast'')
       = (VisualDesign, initial_response\<lparr>visualDesign := JArr [JStr (js ''Good contrast'')]\<rparr>)
   \<and> \<not> appends initial_response VisualDesign (js ''Plain sentence.'')
   \<and> scan_line (VisualDesign, initial_response) (js ''Plain sentence.'') = (VisualDesign, initial_response)"
proof -
  have a: "mentions_ux (js ''- UX tip'')" "is_bullet (js ''- UX tip'')" by code_simp+
  have b: "\<not> mentions_ux (js ''1. Design first'')" "mentions_visual (js ''1. Design first'')"
    by code_simp+
  have c: "\<not> mentions_ux (js ''- Best way'')" "\<not> mentions_visual (js ''- Best way'')"
    "mentions_best (js ''- Best way'')" by code_simp+
  have d: "\<not> mentions_ux (js ''- Good contrast'')" "\<not> mentions_visual (js ''- Good contrast'')"
    "\<not> mentions_best (js ''- Good contrast'')" "appends initial_response VisualDesign (js ''- Good contrast'')"
    by code_simp+
  have d': "push_section initial_response VisualDesign (JStr (trim (replace_marker (js ''- Good contrast''))))
      = initial_response\<lparr>visualDesign := JArr [JStr (js ''Good contrast'')]\<rparr>"
    by code_simp
  have e: "\<not> mentions_ux (js ''Plain sentence.'')" "\<not> mentions_visual (js ''Plain sentence.'')"
    "\<not> mentions_best (js ''Plain sentence.'')" "\<not> appends initial_response VisualDesign (js ''Plain sentence.'')"
    by code_simp+
  from scan_line_one_action[of "js ''- UX tip''" BestPractices initial_response]
    scan_line_one_action[of "js ''1. Design first''" BestPractices initial_response]
    scan_line_one_action[of "js ''- Best way''" UxInsights initial_response]
    scan_line_one_action[of "js ''- Good contrast''" VisualDesign initial_response]
    scan_line_one_action[of "js ''Plain sentence.''" VisualDesign initial_response]
    a b c d d' e
  show ?thesis by simp
qed

section \<open>\<open>JSON.stringify\<close>\<close>

subsection \<open>Strings\<close>

definition hexDigit :: "jschar \<Rightarrow> jschar" where
  "hexDigit d = (if d < 10 then 0x30 + d else 0x57 + d)"

text \<open>\<open>\uXXXX\<close> with four lower-case hexadecimal digits.\<close>

definition unicode_escape :: "jschar \<Rightarrow> jsstring" where
  "unicode_escape c =
     [0x5C, 0x75, hexDigit (drop_bit 12 c), hexDigit (take_bit 4 (drop_bit 8 c)),
      hexDigit (take_bit 4 (drop_bit 4 c)), hexDigit (take_bit 4 c)]"

definition isHighSurrogate :: "jschar \<Rightarrow> bool" where
  "isHighSurrogate c \<longleftrightarrow> 0xD800 \<le> c \<and> c \<le> 0xDBFF"

definition isLowSurrogate :: "jschar \<Rightarrow> bool" where
  "isLowSurrogate c \<longleftrightarrow> 0xDC00 \<le> c \<and> c \<le> 0xDFFF"

text \<open>
  The characters of a quoted string: the short escapes for backspace, tab, line feed,
  form feed, carriage return, the double quote and the backslash; \<open>\uXXXX\<close> for the
  other code units below U+0020 and for a surrogate that is not part of a pair;
  everything else as it is.
\<close>

fun quote_chars :: "jsstring \<Rightarrow> jsstring" where
  "quote_chars [] = []"
| "quote_chars (c # cs) =
     (if c = 0x08 then [0x5C, 0x62] @ quote_chars cs
      else if c = 0x09 then [0x5C, 0x74] @ quote_chars cs
      else if c = 0x0A then [0x5C, 0x6E] @ quote_chars cs
      else if c = 0x0C then [0x5C, 0x66] @ quote_chars cs
      else if c = 0x0D then [0x5C, 0x72] @ quote_chars cs
      else if c = 0x22 then [0x5C, 0x22] @ quote_chars cs
      else if c = 0x5C then [0x5C, 0x5C] @ quote_chars cs
      else if c < 0x20 then unicode_escape c @ quote_chars cs
      else if isHighSurrogate c then
        (case cs of
           [] \<Rightarrow> unicode_escape c
         | d # ds \<Rightarrow> if isLowSurrogate d then c # d # quote_chars ds
                     else unicode_escape c @ quote_chars cs)
      else if isLowSurrogate c then unicode_escape c @ quote_chars cs
      else c # quote_chars cs)"

definition QuoteJSONString :: "jsstring \<Rightarrow> jsstring" where
  "QuoteJSONString s = [0x22] @ quote_chars s @ [0x22]"

subsection \<open>Numbers\<close>

definition digitChar :: "int \<Rightarrow> jschar" where
  "digitChar i = of_int (48 + i)"

text \<open>The decimal digits of a natural number.\<close>

function decimal :: "int \<Rightarrow> jsstring" where
  "decimal i = (if i < 10 then [digitChar i] else decimal (i div 10) @ [digitChar (i mod 10)])"
  by pat_completeness auto
termination
  by (relation "measure nat") auto

text \<open>\<open>decimal_exponent x\<close> is the \<open>n\<close> with \<open>10^(n-1) \<le> x < 10^n\<close>, for positive \<open>x\<close>.\<close>

definition decimal_exponent :: "rat \<Rightarrow> int" where
  "decimal_exponent x =
     (let (p, d) = quotient_of x; g = int (length (decimal p)) - int (length (decimal d))
      in if x < 10 powi g then g else g + 1)"

text \<open>
  \<open>valid_digits x k n s\<close>: the integer \<open>s\<close> has \<open>k\<close> digits and the Number value of
  \<open>s * 10^(n-k)\<close> is \<open>x\<close>.
\<close>

definition valid_digits :: "rat \<Rightarrow> nat \<Rightarrow> int \<Rightarrow> int \<Rightarrow> bool" where
  "valid_digits x k n s \<longleftrightarrow>
     10 ^ (k - 1) \<le> s \<and> s < 10 ^ k \<and> round_double (of_int s * 10 powi (n - int k)) = Fin x"

text \<open>The valid \<open>(n, s)\<close> for \<open>k\<close> digits, the one nearest to \<open>x\<close> first (of two equally
  near, the even one).\<close>

definition nearest_first :: "rat \<Rightarrow> nat \<Rightarrow> int \<Rightarrow> (int \<times> int) list" where
  "nearest_first x k n =
     (let y = x / 10 powi (n - int k); lo = \<lfloor>y\<rfloor>; r = y - of_int lo
      in if r < 1 / 2 \<or> (r = 1 / 2 \<and> even lo) then [(n, lo), (n, lo + 1)]
         else [(n, lo + 1), (n, lo)])"

definition candidates :: "rat \<Rightarrow> nat \<Rightarrow> (int \<times> int) list" where
  "candidates x k =
     filter (\<lambda>(n, s). valid_digits x k n s)
       (nearest_first x k (decimal_exponent x) @ nearest_first x k (decimal_exponent x + 1))"

fun shortest :: "rat \<Rightarrow> nat list \<Rightarrow> (int \<times> nat \<times> int) option" where
  "shortest x [] = None"
| "shortest x (k # ks) =
     (case candidates x k of [] \<Rightarrow> shortest x ks | (n, s) # _ \<Rightarrow> Some (n, k, s))"

text \<open>
  The exact decimal expansion of a positive double: a double is a multiple of
  \<open>2^-1074\<close>, so \<open>x * 10^1074\<close> is an integer.
\<close>

definition exact_scale :: nat where
  "exact_scale = 1074"

definition exact_digits :: "rat \<Rightarrow> int \<times> nat \<times> int" where
  "exact_digits x =
     (let s = \<lfloor>x * 10 ^ exact_scale\<rfloor>; k = length (decimal s) in (int k - int exact_scale, k, s))"

text \<open>The numeral for \<open>s * 10^(n-k)\<close> where \<open>s\<close> has the \<open>k\<close> digits \<open>ds\<close>.\<close>

definition format_digits :: "int \<Rightarrow> nat \<Rightarrow> jsstring \<Rightarrow> jsstring" where
  "format_digits n k ds =
     (if int k \<le> n \<and> n \<le> 21 then ds @ replicate (nat (n - int k)) 0x30
      else if 0 < n \<and> n \<le> 21 then take (nat n) ds @ [0x2E] @ drop (nat n) ds
      else if - 6 < n \<and> n \<le> 0 then [0x30, 0x2E] @ replicate (nat (- n)) 0x30 @ ds
      else (if k = 1 then ds else [hd ds, 0x2E] @ tl ds)
           @ [0x65, if n - 1 < 0 then 0x2D else 0x2B] @ decimal \<bar>n - 1\<bar>)"

text \<open>
  \<open>Number::toString\<close> of a finite number: the shortest digits that denote it. A double
  needs 17 digits at most; the exact expansion stands behind them.
\<close>

definition toString_positive :: "rat \<Rightarrow> jsstring" where
  "toString_positive x =
     (case (case shortest x [1..<18] of None \<Rightarrow> exact_digits x | Some c \<Rightarrow> c) of
        (n, k, s) \<Rightarrow> format_digits n k (decimal s))"

definition Number_toString :: "rat \<Rightarrow> jsstring" where
  "Number_toString x =
     (if x = 0 then js ''0''
      else if x < 0 then [0x2D] @ toString_positive (- x)
      else toString_positive x)"

subsection \<open>Values\<close>

fun join_comma :: "jsstring list \<Rightarrow> jsstring" where
  "join_comma [] = []"
| "join_comma [s] = s"
| "join_comma (s # t # ts) = s @ [0x2C] @ join_comma (t # ts)"

text \<open>
  \<open>serialize\<close> is \<open>SerializeJSONProperty\<close> without indentation; \<open>None\<close> stands for
  \<open>undefined\<close>. An undefined element of an array is written \<open>null\<close>, a member with an
  undefined value is left out, and an infinite number is written \<open>null\<close>. The members
  are written in the order of the list.
\<close>

fun serialize :: "jsval \<Rightarrow> jsstring option"
  and serialize_elements :: "jsval list \<Rightarrow> jsstring list"
  and serialize_members :: "(jsstring \<times> jsval) list \<Rightarrow> jsstring list" where
  "serialize JUndefined = None"
| "serialize JNull = Some (js ''null'')"
| "serialize (JBool b) = Some (if b then js ''true'' else js ''false'')"
| "serialize (JNum n) = Some (case n of Fin x \<Rightarrow> Number_toString x | _ \<Rightarrow> js ''null'')"
| "serialize (JStr s) = Some (QuoteJSONString s)"
| "serialize (JArr xs) = Some ([0x5B] @ join_comma (serialize_elements xs) @ [0x5D])"
| "serialize (JObj ms) = Some ([0x7B] @ join_comma (serialize_members ms) @ [0x7D])"
| "serialize_elements [] = []"
| "serialize_elements (x # xs) =
     (case serialize x of None \<Rightarrow> js ''null'' | Some s \<Rightarrow> s) # serialize_elements xs"
| "serialize_members [] = []"
| "serialize_members ((k, v) # ms) =
     (case serialize v of
        None \<Rightarrow> serialize_members ms
      | Some s \<Rightarrow> (QuoteJSONString k @ [0x3A] @ s) # serialize_members ms)"

definition JSON_stringify :: "jsval \<Rightarrow> jsstring option" where
  "JSON_stringify v = serialize v"

text \<open>The response as the object that is serialized, its properties in the order of
  the object literal.\<close>

definition response_value :: "AnalysisResponse \<Rightarrow> jsval" where
  "response_value r =
     JObj [(key_name UxInsights, uxInsights r), (key_name VisualDesign, visualDesign r),
           (key_name BestPractices, bestPractices r), (key_name Annotations, annotations r)]"

text \<open>The tokens of the serialization of a value.\<close>

fun tokens :: "jsval \<Rightarrow> token list"
  and tokens_elements :: "jsval list \<Rightarrow> token list"
  and tokens_members :: "(jsstring \<times> jsval) list \<Rightarrow> token list" where
  "tokens JUndefined = [TNull]"
| "tokens JNull = [TNull]"
| "tokens (JBool b) = [if b then TTrue else TFalse]"
| "tokens (JNum n) = [TNumber n]"
| "tokens (JStr s) = [TString s]"
| "tokens (JArr xs) = TLBracket # tokens_elements xs @ [TRBracket]"
| "tokens (JObj ms) = TLBrace # tokens_members ms @ [TRBrace]"
| "tokens_elements [] = []"
| "tokens_elements [x] = tokens x"
| "tokens_elements (x # y # ys) = tokens x @ TComma # tokens_elements (y # ys)"
| "tokens_members [] = []"
| "tokens_members [(k, v)] = TString k # TColon # tokens v"
| "tokens_members ((k, v) # m # ms) = TString k # TColon # tokens v @ TComma # tokens_members (m # ms)"

text \<open>
  A proper value: \<open>undefined\<close> occurs nowhere in it and no object has two members of
  the same key.
\<close>

fun proper :: "jsval \<Rightarrow> bool"
  and proper_elements :: "jsval list \<Rightarrow> bool"
  and proper_members :: "(jsstring \<times> jsval) list \<Rightarrow> bool" where
  "proper JUndefined = False"
| "proper JNull = True"
| "proper (JBool b) = True"
| "proper (JNum n) = True"
| "proper (JStr s) = True"
| "proper (JArr xs) = proper_elements xs"
| "proper (JObj ms) = (distinct (map fst ms) \<and> proper_members ms)"
| "proper_elements [] = True"
| "proper_elements (x # xs) = (proper x \<and> proper_elements xs)"
| "proper_members [] = True"
| "proper_members ((k, v) # ms) = (proper v \<and> proper_members ms)"

text \<open>A double, as a rational: a number that is its own Number value.\<close>

definition is_double :: "rat \<Rightarrow> bool" where
  "is_double x \<longleftrightarrow> round_double x = Fin x"

text \<open>\<open>finite_numbers v\<close>: no number in \<open>v\<close> is infinite. \<open>double_numbers v\<close>: every
  finite number in \<open>v\<close> is a double.\<close>

fun finite_numbers :: "jsval \<Rightarrow> bool"
  and finite_elements :: "jsval list \<Rightarrow> bool"
  and finite_members :: "(jsstring \<times> jsval) list \<Rightarrow> bool" where
  "finite_numbers (JNum n) = (case n of Fin x \<Rightarrow> True | _ \<Rightarrow> False)"
| "finite_numbers (JArr xs) = finite_elements xs"
| "finite_numbers (JObj ms) = finite_members ms"
| "finite_numbers v = True"
| "finite_elements [] = True"
| "finite_elements (x # xs) = (finite_numbers x \<and> finite_elements xs)"
| "finite_members [] = True"
| "finite_members ((k, v) # ms) = (finite_numbers v \<and> finite_members ms)"

fun double_numbers :: "jsval \<Rightarrow> bool"
  and double_elements :: "jsval list \<Rightarrow> bool"
  and double_members :: "(jsstring \<times> jsval) list \<Rightarrow> bool" where
  "double_numbers (JNum n) = (case n of Fin x \<Rightarrow> is_double x | _ \<Rightarrow> True)"
| "double_numbers (JArr xs) = double_elements xs"
| "double_numbers (JObj ms) = double_members ms"
| "double_numbers v = True"
| "double_elements [] = True"
| "double_elements (x # xs) = (double_numbers x \<and> double_elements xs)"
| "double_members [] = True"
| "double_members ((k, v) # ms) = (double_numbers v \<and> double_members ms)"

text \<open>What follows a value in a serialization: nothing, a comma or a closing bracket.\<close>

definition delim :: "jsstring \<Rightarrow> bool" where
  "delim rest \<longleftrightarrow> rest = [] \<or> hd rest = 0x2C \<or> hd rest = 0x5D \<or> hd rest = 0x7D"

section \<open>Reading a serialization back\<close>

subsection \<open>Strings\<close>

lemma hexVal_hexDigit: "d < 16 \<Longrightarrow> hexVal (hexDigit d) = Some (d::jschar)"
  unfolding hexVal_def hexDigit_def
  by (simp add: word_less_nat_alt word_le_nat_alt unat_word_ariths) (unat_arith?)

lemma unat_jschar_less: "unat (c::jschar) < 65536"
  using unsigned_less[of c, where 'a=nat] by simp

lemma unat_nibbles:
  "unat (drop_bit 12 (c::jschar)) = unat c div 4096"
  "unat (take_bit 4 (drop_bit 8 c)) = unat c div 256 mod 16"
  "unat (take_bit 4 (drop_bit 4 c)) = unat c div 16 mod 16"
  "unat (take_bit 4 c) = unat c mod 16"
  by (simp_all add: unat_div unat_mod unat_drop_bit_eq unsigned_take_bit_eq take_bit_eq_mod drop_bit_eq_div)

lemma nibble_less:
  "drop_bit 12 (c::jschar) < 16" "take_bit 4 (x::jschar) < 16"
  using unat_jschar_less[of c]
  by (simp_all add: word_less_nat_alt unat_nibbles div_less_iff_less_mult)

lemma nat_nibbles: "((n div 4096 * 16 + n div 256 mod 16) * 16 + n div 16 mod 16) * 16 + n mod 16 = (n::nat)"
proof -
  have a: "n div 256 = n div 16 div 16" "n div 4096 = n div 256 div 16"
    by (simp_all add: div_mult2_eq[symmetric])
  have 1: "n div 16 * 16 + n mod 16 = n" by simp
  have 2: "n div 256 * 16 + n div 16 mod 16 = n div 16"
    unfolding a by simp
  have 3: "n div 4096 * 16 + n div 256 mod 16 = n div 256"
    unfolding a(2) by simp
  show ?thesis by (simp only: 1 2 3)
qed

lemma nibbles_combine:
  "((drop_bit 12 c * 16 + take_bit 4 (drop_bit 8 c)) * 16 + take_bit 4 (drop_bit 4 c)) * 16
     + take_bit 4 c = (c::jschar)"
proof -
  define n where "n = unat c"
  have a: "drop_bit 12 c = of_nat (n div 4096)"
    "take_bit 4 (drop_bit 8 c) = of_nat (n div 256 mod 16)"
    "take_bit 4 (drop_bit 4 c) = of_nat (n div 16 mod 16)"
    "take_bit 4 c = of_nat (n mod 16)"
    unfolding n_def unat_nibbles[symmetric] by simp_all
  have "((drop_bit 12 c * 16 + take_bit 4 (drop_bit 8 c)) * 16 + take_bit 4 (drop_bit 4 c)) * 16
     + take_bit 4 c = of_nat (((n div 4096 * 16 + n div 256 mod 16) * 16 + n div 16 mod 16) * 16 + n mod 16)"
    unfolding a by simp
  also have "\<dots> = of_nat n" by (simp only: nat_nibbles)
  also have "\<dots> = c" by (simp add: n_def)
  finally show ?thesis .
qed

lemma nibbles_combine':
  "4096 * drop_bit 12 c + 256 * take_bit 4 (drop_bit 8 c) + take_bit 4 (drop_bit 4 c) * 16
     + take_bit 4 c = (c::jschar)"
  using nibbles_combine[of c] by (simp add: algebra_simps)

lemma lex_string_unicode_escape:
  "lex_string (unicode_escape c @ cs) = cons_result c (lex_string cs)"
  by (simp add: unicode_escape_def hexVal_hexDigit nibble_less nibbles_combine')

lemma lex_string_plain:
  "c \<noteq> 0x22 \<Longrightarrow> c \<noteq> 0x5C \<Longrightarrow> \<not> c < 0x20 \<Longrightarrow> lex_string (c # cs) = cons_result c (lex_string cs)"
  by simp

lemma lex_string_escape:
  "unescape e = Some u \<Longrightarrow> e \<noteq> 0x75 \<Longrightarrow> lex_string (0x5C # e # cs) = cons_result u (lex_string cs)"
  by simp

lemma lex_string_quote: "lex_string (0x22 # cs) = Some ([], cs)"
  by simp

lemma surrogate_plain:
  "isHighSurrogate c \<or> isLowSurrogate c \<Longrightarrow> c \<noteq> 0x22 \<and> c \<noteq> 0x5C \<and> \<not> c < 0x20"
  by (auto simp: isHighSurrogate_def isLowSurrogate_def word_le_nat_alt word_less_nat_alt)

lemma unescape_values:
  "unescape 0x62 = Some 0x08" "unescape 0x74 = Some 0x09" "unescape 0x6E = Some 0x0A"
  "unescape 0x66 = Some 0x0C" "unescape 0x72 = Some 0x0D" "unescape 0x22 = Some 0x22"
  "unescape 0x5C = Some 0x5C"
  by (simp_all add: unescape_def)

lemma quote_step:
  assumes "lex_string (quote_chars cs @ 0x22 # rest) = Some (cs, rest)"
    and "\<And>d ds. cs = d # ds \<Longrightarrow> lex_string (quote_chars ds @ 0x22 # rest) = Some (ds, rest)"
  shows "lex_string (quote_chars (c # cs) @ 0x22 # rest) = Some (c # cs, rest)"
proof -
  have tail: "cons_result c (lex_string (quote_chars cs @ 0x22 # rest)) = Some (c # cs, rest)"
    using assms(1) by (simp add: cons_result_def)
  show ?thesis
  proof (cases "c = 0x08 \<or> c = 0x09 \<or> c = 0x0A \<or> c = 0x0C \<or> c = 0x0D \<or> c = 0x22 \<or> c = 0x5C")
    case True
    then show ?thesis
      using tail by (elim disjE) (simp_all add: lex_string_escape unescape_values del: lex_string.simps)
  next
    case ne: False
    show ?thesis
    proof (cases "c < 0x20")
      case True
      with ne tail show ?thesis
        by (simp add: lex_string_unicode_escape del: lex_string.simps)
    next
      case ge: False
      have plain: "lex_string (c # xs) = cons_result c (lex_string xs)" for xs
        using ne ge by (intro lex_string_plain) auto
      show ?thesis
      proof (cases "isHighSurrogate c")
        case hi: True
        show ?thesis
        proof (cases cs)
          case Nil
          with ne ge hi tail show ?thesis
            by (simp add: lex_string_unicode_escape del: lex_string.simps)
        next
          case (Cons d ds)
          show ?thesis
          proof (cases "isLowSurrogate d")
            case True
            have pd: "lex_string (d # xs) = cons_result d (lex_string xs)" for xs
              using surrogate_plain[of d] True by (intro lex_string_plain) auto
            have "quote_chars (c # cs) = c # d # quote_chars ds"
              using ne ge hi Cons True by simp
            then show ?thesis
              using assms(2)[OF Cons] Cons by (simp add: plain pd cons_result_def del: lex_string.simps)
          next
            case False
            then have "quote_chars (c # cs) = unicode_escape c @ quote_chars cs"
              using ne ge hi Cons by simp
            then show ?thesis
              using tail by (simp add: lex_string_unicode_escape del: lex_string.simps)
          qed
        qed
      next
        case nhi: False
        show ?thesis
        proof (cases "isLowSurrogate c")
          case True
          then have "quote_chars (c # cs) = unicode_escape c @ quote_chars cs"
            using ne ge nhi by simp
          then show ?thesis
            using tail by (simp add: lex_string_unicode_escape del: lex_string.simps)
        next
          case False
          then have "quote_chars (c # cs) = c # quote_chars cs"
            using ne ge nhi by simp
          then show ?thesis
            using tail by (simp add: plain del: lex_string.simps)
        qed
      qed
    qed
  qed
qed

lemma lex_string_quote_chars:
  "lex_string (quote_chars s @ 0x22 # rest) = Some (s, rest)"
proof (induction s rule: length_induct)
  case (1 s)
  show ?case
  proof (cases s)
    case Nil
    then show ?thesis by simp
  next
    case (Cons c cs)
    have a: "lex_string (quote_chars cs @ 0x22 # rest) = Some (cs, rest)"
      using "1.IH" Cons by simp
    have b: "lex_string (quote_chars ds @ 0x22 # rest) = Some (ds, rest)" if "cs = d # ds" for d ds
      using "1.IH" Cons that by simp
    from quote_step[OF a b] Cons show ?thesis by simp
  qed
qed

subsection \<open>Numbers: a double is its own Number value\<close>

lemma two_powi_pos: "0 < (2::rat) powi k"
  by simp

lemma ilog2_bounds:
  assumes "0 < a"
  shows "2 powi (ilog2 a) \<le> a" and "a < 2 powi (ilog2 a + 1)"
proof -
  obtain p d where pd: "quotient_of a = (p, d)" by (cases "quotient_of a")
  then have d: "0 < d" and a: "a = of_int p / of_int d"
    using quotient_of_denom_pos quotient_of_div by blast+
  with assms have p: "0 < p"
    by (simp add: zero_less_divide_iff)
  define bp bd where "bp = bitlen p" and "bd = bitlen d"
  have bp1: "1 \<le> bp" and bd1: "1 \<le> bd"
    using p d bitlen_eq_zero_iff[of p] bitlen_eq_zero_iff[of d] bitlen_nonneg[of p] bitlen_nonneg[of d]
    unfolding bp_def bd_def by linarith+
  have "2 ^ nat (bp - 1) \<le> p" "p < 2 ^ nat bp" "2 ^ nat (bd - 1) \<le> d" "d < 2 ^ nat bd"
    using bitlen_bounds[OF p] bitlen_bounds[OF d] unfolding bp_def bd_def by auto
  then have "(of_int (2 ^ nat (bp - 1)) :: rat) \<le> of_int p" "(of_int p :: rat) < of_int (2 ^ nat bp)"
    "(of_int (2 ^ nat (bd - 1)) :: rat) \<le> of_int d" "(of_int d :: rat) < of_int (2 ^ nat bd)"
    by (simp_all only: of_int_le_iff of_int_less_iff)
  then have bnd: "(2::rat) powi (bp - 1) \<le> of_int p" "(of_int p :: rat) < 2 powi bp"
    "(2::rat) powi (bd - 1) \<le> of_int d" "(of_int d :: rat) < 2 powi bd"
    using bp1 bd1 by (simp_all add: power_int_def)
  have dpos: "(0::rat) < of_int d" using d by simp
  have hi: "a < 2 powi (bp - bd + 1)"
  proof -
    have "a < 2 powi bp / of_int d"
      unfolding a using bnd(2) dpos by (simp add: divide_strict_right_mono)
    also have "\<dots> \<le> 2 powi bp / 2 powi (bd - 1)"
      using bnd(3) dpos by (intro divide_left_mono) (simp_all)
    also have "\<dots> = 2 powi (bp - (bd - 1))"
      by (simp add: power_int_diff[symmetric])
    also have "bp - (bd - 1) = bp - bd + 1" by simp
    finally show ?thesis .
  qed
  have lo: "2 powi (bp - bd - 1) < a"
  proof -
    have "bp - bd - 1 = (bp - 1) - bd" by simp
    then have "2 powi (bp - bd - 1) = 2 powi (bp - 1) / (2::rat) powi bd"
      by (simp only: power_int_diff[symmetric]) (simp add: power_int_diff)
    also have "\<dots> < 2 powi (bp - 1) / of_int d"
      using bnd(4) dpos by (intro divide_strict_left_mono) (simp_all)
    also have "\<dots> \<le> a"
      unfolding a using bnd(1) dpos by (simp add: divide_right_mono)
    finally show ?thesis .
  qed
  have il: "ilog2 a = (if 2 powi (bp - bd) \<le> a then bp - bd else bp - bd - 1)"
    by (simp add: ilog2_def pd bp_def bd_def Let_def)
  show "2 powi (ilog2 a) \<le> a"
    using lo by (auto simp: il)
  show "a < 2 powi (ilog2 a + 1)"
    using hi by (auto simp: il not_le)
qed

lemma ilog2_unique:
  assumes "0 < a" "2 powi k \<le> a" "a < 2 powi (k + 1)"
  shows "ilog2 a = k"
proof -
  note b = ilog2_bounds[OF assms(1)]
  have "(2::rat) powi k < 2 powi (ilog2 a + 1)"
    using assms(2) b(2) by simp
  then have 1: "k < ilog2 a + 1"
    using power_int_increasing[of "ilog2 a + 1" k "2::rat"] by (cases "k < ilog2 a + 1") auto
  have "(2::rat) powi (ilog2 a) < 2 powi (k + 1)"
    using assms(3) b(1) by simp
  then have 2: "ilog2 a < k + 1"
    using power_int_increasing[of "k + 1" "ilog2 a" "2::rat"] by (cases "ilog2 a < k + 1") auto
  from 1 2 show ?thesis by simp
qed

lemma round_half_even_of_int [simp]: "round_half_even (of_int k) = k"
  by (simp add: round_half_even_def)

lemma round_half_even_ge: "of_int lo \<le> y \<Longrightarrow> lo \<le> round_half_even y"
proof -
  assume "of_int lo \<le> y"
  then have "lo \<le> \<lfloor>y\<rfloor>" by (simp add: le_floor_iff)
  then show ?thesis by (auto simp: round_half_even_def Let_def)
qed

lemma round_half_even_le: "y \<le> of_int hi \<Longrightarrow> round_half_even y \<le> hi"
proof -
  assume a: "y \<le> of_int hi"
  then have f: "\<lfloor>y\<rfloor> \<le> hi" by (metis floor_le_iff floor_mono floor_of_int le_floor_iff order_refl)
  show ?thesis
  proof (cases "\<lfloor>y\<rfloor> = hi")
    case True
    with a have "y = of_int hi" by (metis of_int_floor_le order_antisym)
    then show ?thesis by simp
  next
    case False
    with f have "\<lfloor>y\<rfloor> + 1 \<le> hi" by simp
    then show ?thesis by (auto simp: round_half_even_def Let_def)
  qed
qed

lemma round_double_neg:
  "round_double (- q) = (case round_double q of Fin v \<Rightarrow> Fin (- v) | PosInf \<Rightarrow> NegInf | NegInf \<Rightarrow> PosInf)"
  by (cases "q = 0"; cases "q < 0") (auto simp: round_double_def Let_def)

lemma round_double_pos:
  assumes "0 < q"
  shows "round_double q =
     (let e = max (ilog2 q - 52) (- 1074); m = round_half_even (q / 2 powi e); v = of_int m * 2 powi e
      in if 2 ^ 1024 \<le> v then PosInf else Fin v)"
  using assms by (simp add: round_double_def Let_def)

lemma powi_split: "(2::rat) powi (a + b) = 2 powi a * 2 powi b"
  by (simp add: power_int_add)

lemma double_form_fixed:
  assumes m: "0 < m" "m \<le> 2 ^ 53" and e: "- 1074 \<le> e" and n: "2 ^ 52 \<le> m \<or> e = - 1074"
    and fin: "\<not> (2::rat) ^ 1024 \<le> of_int m * 2 powi e"
  shows "round_double (of_int m * 2 powi e) = Fin (of_int m * 2 powi e)"
proof -
  define x :: rat where "x = of_int m * 2 powi e"
  have xpos: "0 < x" using m by (simp add: x_def)
  have m53: "(of_int m :: rat) \<le> 2 ^ 53" using m(2) by (metis of_int_le_iff of_int_numeral of_int_power)
  consider (top) "m = 2 ^ 53" | (normal) "2 ^ 52 \<le> m" "m < 2 ^ 53" | (sub) "m < 2 ^ 52" "e = - 1074"
    using m n by linarith
  then have "\<exists>e'. max (ilog2 x - 52) (- 1074) = e' \<and> (\<exists>m'. x / 2 powi e' = of_int m' \<and> of_int m' * 2 powi e' = x)"
  proof cases
    case top
    then have x: "x = 2 powi (e + 53)" by (simp add: x_def powi_split)
    have "ilog2 x = e + 53"
      by (rule ilog2_unique[OF xpos]) (simp_all add: x powi_split)
    then have "max (ilog2 x - 52) (- 1074) = e + 1" using e by simp
    moreover have "x / 2 powi (e + 1) = of_int (2 ^ 52)" "of_int (2 ^ 52) * 2 powi (e + 1) = x"
      by (simp_all add: x powi_split)
    ultimately show ?thesis by blast
  next
    case normal
    then have b: "(2::rat) ^ 52 \<le> of_int m" "(of_int m :: rat) < 2 ^ 53"
      by (metis of_int_le_iff of_int_numeral of_int_power, metis of_int_less_iff of_int_numeral of_int_power)
    have "ilog2 x = e + 52"
    proof (rule ilog2_unique[OF xpos])
      show "2 powi (e + 52) \<le> x" using b(1) by (simp add: x_def powi_split mult.commute)
      have "x < 2 ^ 53 * 2 powi e" unfolding x_def using b(2) by (simp add: mult_strict_right_mono)
      then show "x < 2 powi (e + 52 + 1)" by (simp add: powi_split mult.commute)
    qed
    then have "max (ilog2 x - 52) (- 1074) = e" using e by simp
    moreover have "x / 2 powi e = of_int m" "of_int m * 2 powi e = x"
      by (simp_all add: x_def)
    ultimately show ?thesis by blast
  next
    case sub
    then have b: "(of_int m :: rat) < 2 ^ 52"
      by (metis of_int_less_iff of_int_numeral of_int_power)
    have "x < 2 ^ 52 * 2 powi e" unfolding x_def using b by (simp add: mult_strict_right_mono)
    then have "x < 2 powi (e + 52)" by (simp add: powi_split mult.commute)
    with ilog2_bounds(1)[OF xpos] have "(2::rat) powi (ilog2 x) < 2 powi (e + 52)" by simp
    then have "ilog2 x < e + 52"
      using power_int_increasing[of "e + 52" "ilog2 x" "2::rat"] by (cases "ilog2 x < e + 52") auto
    then have "max (ilog2 x - 52) (- 1074) = e" using sub(2) by simp
    moreover have "x / 2 powi e = of_int m" "of_int m * 2 powi e = x"
      by (simp_all add: x_def)
    ultimately show ?thesis by blast
  qed
  then obtain e' m' where e': "max (ilog2 x - 52) (- 1074) = e'"
    and m': "x / 2 powi e' = of_int m'" "of_int m' * 2 powi e' = x" by blast
  have "round_double x = Fin x"
    using fin unfolding round_double_pos[OF xpos] e' Let_def m' round_half_even_of_int
    by (simp add: x_def)
  then show ?thesis by (simp add: x_def)
qed

lemma round_double_idem_pos:
  assumes "0 < q" "round_double q = Fin x"
  shows "round_double x = Fin x"
proof -
  define e where "e = max (ilog2 q - 52) (- 1074)"
  define m where "m = round_half_even (q / 2 powi e)"
  from assms have fin: "\<not> (2::rat) ^ 1024 \<le> of_int m * 2 powi e" and x: "x = of_int m * 2 powi e"
    by (auto simp: round_double_pos Let_def e_def m_def split: if_splits)
  have e: "- 1074 \<le> e" by (simp add: e_def)
  have qe: "0 \<le> q / 2 powi e" using assms(1) by simp
  then have m0: "0 \<le> m" unfolding m_def using round_half_even_ge[of 0] by simp
  note b = ilog2_bounds[OF assms(1)]
  have "m \<le> 2 ^ 53 \<and> (2 ^ 52 \<le> m \<or> e = - 1074)"
  proof (cases "- 1074 \<le> ilog2 q - 52")
    case True
    then have ee: "ilog2 q = e + 52" by (simp add: e_def)
    have "2 ^ 52 * 2 powi e \<le> q" "q < 2 ^ 53 * 2 powi e"
      using b unfolding ee by (simp_all add: powi_split mult.commute)
    then have "of_int (2 ^ 52) \<le> q / 2 powi e" "q / 2 powi e \<le> of_int (2 ^ 53)"
      by (simp_all add: pos_le_divide_eq pos_divide_le_eq)
    then show ?thesis unfolding m_def
      using round_half_even_ge round_half_even_le by blast
  next
    case False
    then have ee: "e = - 1074" and il: "ilog2 q + 1 \<le> e + 52" by (simp_all add: e_def)
    have "q < 2 powi (e + 52)"
      using b(2) power_int_increasing[OF il, of "2::rat"] by simp
    then have "q < 2 ^ 52 * 2 powi e" by (simp add: powi_split mult.commute)
    then have "q / 2 powi e \<le> of_int (2 ^ 52)"
      by (simp add: pos_divide_le_eq)
    then have "m \<le> 2 ^ 52" unfolding m_def by (rule round_half_even_le)
    with ee show ?thesis by simp
  qed
  then have mb: "m \<le> 2 ^ 53" "2 ^ 52 \<le> m \<or> e = - 1074" by simp_all
  show ?thesis
  proof (cases "m = 0")
    case True
    then show ?thesis by (simp add: x round_double_def)
  next
    case False
    with m0 have "0 < m" by simp
    from double_form_fixed[OF this mb(1) e mb(2) fin] show ?thesis by (simp add: x)
  qed
qed

lemma round_double_idem: "round_double q = Fin x \<Longrightarrow> is_double x"
proof -
  assume a: "round_double q = Fin x"
  consider "q = 0" | "0 < q" | "q < 0" by linarith
  then show ?thesis
  proof cases
    case 1
    with a show ?thesis by (simp add: is_double_def round_double_def)
  next
    case 2
    from round_double_idem_pos[OF 2 a] show ?thesis by (simp add: is_double_def)
  next
    case 3
    then have "0 < - q" by simp
    moreover have "round_double (- q) = Fin (- x)" using a by (simp add: round_double_neg)
    ultimately have "round_double (- x) = Fin (- x)" by (rule round_double_idem_pos)
    then have "round_double (- (- x)) = Fin x" by (subst round_double_neg) simp
    then show ?thesis by (simp add: is_double_def)
  qed
qed

subsection \<open>Numbers: the numeral of a double reads back\<close>

declare decimal.simps [simp del]

lemma digitChar_props:
  assumes "0 \<le> i" "i < 10"
  shows "isDigit (digitChar i)" "digitVal (digitChar i) = i" "(digitChar i = 0x30) = (i = 0)"
proof -
  have u: "uint (digitChar i) = 48 + i"
    using assms by (simp add: digitChar_def uint_word_ariths uint_word_of_int take_bit_eq_mod)
  show "isDigit (digitChar i)"
    using assms u by (simp add: isDigit_def word_le_def)
  show "digitVal (digitChar i) = i"
    using u by (simp add: digitVal_def)
  show "(digitChar i = 0x30) = (i = 0)"
    using u by (simp add: word_uint_eq_iff)
qed

lemma digits_val_snoc: "digits_val (xs @ [c]) = 10 * digits_val xs + digitVal c"
  by (simp add: digits_val_def)

lemma digits_val_Nil [simp]: "digits_val [] = 0"
  by (simp add: digits_val_def)

lemma digits_val_append: "digits_val (xs @ ys) = digits_val xs * 10 ^ length ys + digits_val ys"
proof (induction ys rule: rev_induct)
  case Nil
  show ?case by simp
next
  case (snoc y ys)
  have "digits_val (xs @ ys @ [y]) = 10 * digits_val (xs @ ys) + digitVal y"
    using digits_val_snoc[of "xs @ ys" y] by simp
  then show ?case using snoc by (simp add: digits_val_snoc algebra_simps)
qed

lemma digits_val_zeros [simp]: "digits_val (replicate n 0x30) = 0"
proof (induction n)
  case 0
  show ?case by simp
next
  case (Suc n)
  have "replicate (Suc n) (0x30::jschar) = replicate n 0x30 @ [0x30]"
    by (simp add: replicate_append_same)
  then have "digits_val (replicate (Suc n) 0x30) = digits_val (replicate n 0x30 @ [0x30])"
    by (simp only:)
  then show ?case using Suc by (simp add: digits_val_snoc digitVal_def)
qed

lemma decimal_props:
  "0 \<le> i \<Longrightarrow> (\<forall>c\<in>set (decimal i). isDigit c) \<and> digits_val (decimal i) = i \<and> decimal i \<noteq> []
      \<and> (0 < i \<longrightarrow> hd (decimal i) \<noteq> 0x30)"
proof (induction i rule: decimal.induct)
  case (1 i)
  show ?case
  proof (cases "i < 10")
    case True
    with "1.prems" digitChar_props[of i] show ?thesis
      by (simp add: decimal.simps[of i] digits_val_def)
  next
    case False
    then have d: "decimal i = decimal (i div 10) @ [digitChar (i mod 10)]"
      by (subst decimal.simps) simp
    from False "1.prems" have p: "0 \<le> i div 10" "0 < i div 10" by simp_all
    note ih = "1.IH"[OF False p(1)]
    have m: "0 \<le> i mod 10" "i mod 10 < 10" by simp_all
    show ?thesis
      using ih p(2) digitChar_props(1,2)[OF m]
      by (simp add: d digits_val_snoc)
  qed
qed

lemma length_decimal_bounds:
  "0 < s \<Longrightarrow> 10 ^ (length (decimal s) - 1) \<le> s \<and> s < 10 ^ length (decimal s)"
proof (induction s rule: decimal.induct)
  case (1 i)
  show ?case
  proof (cases "i < 10")
    case True
    with "1.prems" show ?thesis by (simp add: decimal.simps[of i])
  next
    case False
    then have d: "decimal i = decimal (i div 10) @ [digitChar (i mod 10)]"
      by (subst decimal.simps) simp
    from False "1.prems" have p: "0 < i div 10" by simp
    note ih = "1.IH"[OF False p]
    have ne: "decimal (i div 10) \<noteq> []" using decimal_props[of "i div 10"] p by simp
    then obtain l where l: "length (decimal (i div 10)) = Suc l" by (cases "decimal (i div 10)") auto
    from ih l have "10 ^ l \<le> i div 10" "i div 10 < 10 * 10 ^ l" by simp_all
    then have "10 * 10 ^ l \<le> i" "i < 10 * (10 * 10 ^ l)" by linarith+
    then show ?thesis by (simp add: d l)
  qed
qed

lemma length_decimal:
  assumes "1 \<le> k" "10 ^ (k - 1) \<le> s" "s < 10 ^ k"
  shows "length (decimal s) = k"
proof -
  have "(0::int) < 10 ^ (k - 1)" by simp
  with assms(2) have s: "0 < s" by linarith
  note b = length_decimal_bounds[OF s]
  define l where "l = length (decimal s)"
  have l1: "1 \<le> l" using decimal_props[of s] s by (cases "decimal s") (auto simp: l_def)
  have "(10::int) ^ (k - 1) < 10 ^ l" using assms(2) b unfolding l_def by linarith
  then have 1: "k - 1 < l" by (simp add: power_strict_increasing_iff)
  have "(10::int) ^ (l - 1) < 10 ^ k" using assms(3) b unfolding l_def by linarith
  then have 2: "l - 1 < k" by (simp add: power_strict_increasing_iff)
  from 1 2 assms(1) l1 show ?thesis by (simp add: l_def)
qed

definition no_digit_next :: "jsstring \<Rightarrow> bool" where
  "no_digit_next t \<longleftrightarrow> t = [] \<or> \<not> isDigit (hd t)"

lemma takeWhile_digits:
  assumes "\<forall>c\<in>set ds. isDigit c" "no_digit_next t"
  shows "takeWhile isDigit (ds @ t) = ds" "dropWhile isDigit (ds @ t) = t"
proof -
  have t: "takeWhile isDigit t = []" "dropWhile isDigit t = t"
    using assms(2) by (cases t; simp add: no_digit_next_def)+
  show "takeWhile isDigit (ds @ t) = ds"
    using assms(1) t by (simp add: takeWhile_append2)
  show "dropWhile isDigit (ds @ t) = t"
    using assms(1) t by (simp add: dropWhile_append2)
qed

lemma delim_next:
  assumes "delim rest"
  shows "no_digit_next rest" "rest = [] \<or> hd rest \<noteq> 0x2E" "rest = [] \<or> (hd rest \<noteq> 0x65 \<and> hd rest \<noteq> 0x45)"
  using assms by (auto simp: delim_def no_digit_next_def isDigit_def)

lemma not_digit_chars: "\<not> isDigit 0x2E" "\<not> isDigit 0x65" "\<not> isDigit 0x45" "\<not> isDigit 0x2D" "\<not> isDigit 0x2B"
  by (simp_all add: isDigit_def)

lemma lex_exponent_none:
  "rest = [] \<or> (hd rest \<noteq> 0x65 \<and> hd rest \<noteq> 0x45) \<Longrightarrow> lex_exponent rest = Some (0, rest)"
  by (cases rest) (auto simp: lex_exponent_def)

lemma lex_exponent_digits:
  assumes "ed \<noteq> []" "\<forall>c\<in>set ed. isDigit c" "no_digit_next rest"
  shows "lex_exponent (0x65 # 0x2D # ed @ rest) = Some (- digits_val ed, rest)"
    and "lex_exponent (0x65 # 0x2B # ed @ rest) = Some (digits_val ed, rest)"
  using assms(1) takeWhile_digits[OF assms(2,3)] by (simp_all add: lex_exponent_def Let_def)

lemma lex_exponent_some:
  assumes "no_digit_next rest"
  shows "lex_exponent (0x65 # (if ex < 0 then 0x2D else 0x2B) # decimal \<bar>ex\<bar> @ rest) = Some (ex, rest)"
proof -
  have d: "decimal \<bar>ex\<bar> \<noteq> []" "\<forall>c\<in>set (decimal \<bar>ex\<bar>). isDigit c" "digits_val (decimal \<bar>ex\<bar>) = \<bar>ex\<bar>"
    using decimal_props[of "\<bar>ex\<bar>"] by simp_all
  show ?thesis
  proof (cases "ex < 0")
    case True
    with lex_exponent_digits(1)[OF d(1,2) assms] d(3) show ?thesis by simp
  next
    case False
    with lex_exponent_digits(2)[OF d(1,2) assms] d(3) show ?thesis by simp
  qed
qed

lemma lex_fraction_none:
  "t = [] \<or> hd t \<noteq> 0x2E \<Longrightarrow> lex_fraction t = Some ([], t)"
  by (cases t) (auto simp: lex_fraction_def)

lemma lex_fraction_some:
  assumes "fr \<noteq> []" "\<forall>c\<in>set fr. isDigit c" "no_digit_next t"
  shows "lex_fraction (0x2E # fr @ t) = Some (fr, t)"
  using assms takeWhile_digits[OF assms(2,3)] by (simp add: lex_fraction_def Let_def)

definition mv_of :: "jsstring \<Rightarrow> jsstring \<Rightarrow> int \<Rightarrow> rat" where
  "mv_of ip fr ex = (of_int (digits_val ip) + of_int (digits_val fr) / 10 ^ length fr) * 10 powi ex"

lemma lex_number_shape:
  assumes ip: "ip \<noteq> []" "\<forall>c\<in>set ip. isDigit c" "length ip = 1 \<or> hd ip \<noteq> 0x30"
    and after: "no_digit_next after"
    and fr: "lex_fraction after = Some (fr, a2)"
    and ex: "lex_exponent a2 = Some (ex, rest)"
  shows "lex_number (ip @ after) = Some (round_double (mv_of ip fr ex), rest)"
    and "lex_number (0x2D # ip @ after) = Some (round_double (- mv_of ip fr ex), rest)"
proof -
  note tw = takeWhile_digits[OF ip(2) after]
  obtain c cs where c: "ip = c # cs" using ip(1) by (cases ip) auto
  with ip(2) have cd: "isDigit c" by simp
  then have c2: "c \<noteq> 0x2D" using not_digit_chars by auto
  have lz: "\<not> (1 < length ip \<and> hd ip = 0x30)" using ip(3) by auto
  have "(case ip @ after of [] \<Rightarrow> (False, ip @ after)
          | c # r \<Rightarrow> if c = 0x2D then (True, r) else (False, ip @ after)) = (False, ip @ after)"
    using c c2 by simp
  then show "lex_number (ip @ after) = Some (round_double (mv_of ip fr ex), rest)"
    unfolding lex_number_def using tw ip(1) lz fr ex by (simp add: Let_def mv_of_def)
  show "lex_number (0x2D # ip @ after) = Some (round_double (- mv_of ip fr ex), rest)"
    unfolding lex_number_def using tw ip(1) lz fr ex by (simp add: Let_def mv_of_def)
qed

lemma powi_neg_nat: "(10::rat) powi (- int m) = 1 / 10 ^ m"
  by (simp add: power_int_minus_divide)

lemma powi_sub_nat: "(10::rat) powi (a - int m) = 10 powi a / 10 ^ m"
  by (simp add: power_int_diff)

lemma format_reads:
  assumes k: "1 \<le> k" and s: "10 ^ (k - 1) \<le> s" "s < 10 ^ k" and rest: "delim rest"
  shows "lex_number (format_digits n k (decimal s) @ rest)
           = Some (round_double (of_int s * 10 powi (n - int k)), rest)
       \<and> lex_number (0x2D # format_digits n k (decimal s) @ rest)
           = Some (round_double (- (of_int s * 10 powi (n - int k))), rest)
       \<and> (\<exists>c cs. format_digits n k (decimal s) = c # cs \<and> isDigit c)"
proof -
  define ds where "ds = decimal s"
  have "(0::int) < 10 ^ (k - 1)" by simp
  with s(1) have spos: "0 < s" by linarith
  have len: "length ds = k" unfolding ds_def by (rule length_decimal[OF k s])
  have dig: "\<forall>c\<in>set ds. isDigit c" and dv: "digits_val ds = s" and ne: "ds \<noteq> []"
    and hd0: "hd ds \<noteq> 0x30"
    using decimal_props[of s] spos by (simp_all add: ds_def)
  have hdd: "isDigit (hd ds)" using dig ne by (cases ds) auto
  note dn = delim_next[OF rest]
  have e_next: "no_digit_next (0x65 # t)" for t by (simp add: no_digit_next_def not_digit_chars)
  have dot_next: "no_digit_next (0x2E # t)" for t by (simp add: no_digit_next_def not_digit_chars)
  have goal: "lex_number (ip @ after) = Some (round_double (of_int s * 10 powi (n - int k)), rest)
       \<and> lex_number (0x2D # ip @ after) = Some (round_double (- (of_int s * 10 powi (n - int k))), rest)
       \<and> (\<exists>c cs. ip = c # cs \<and> isDigit c)"
    if ip: "ip \<noteq> []" "\<forall>c\<in>set ip. isDigit c" "length ip = 1 \<or> hd ip \<noteq> 0x30"
      and after: "no_digit_next after" "lex_fraction after = Some (fr, a2)" "lex_exponent a2 = Some (ex, rest)"
      and mv: "mv_of ip fr ex = of_int s * 10 powi (n - int k)"
    for ip after fr a2 ex
  proof -
    from ip(1,2) have "\<exists>c cs. ip = c # cs \<and> isDigit c" by (cases ip) auto
    with lex_number_shape[OF ip after] mv show ?thesis by simp
  qed
  consider (int) "int k \<le> n" "n \<le> 21"
    | (frac) "\<not> (int k \<le> n \<and> n \<le> 21)" "0 < n" "n \<le> 21"
    | (small) "\<not> (int k \<le> n \<and> n \<le> 21)" "\<not> (0 < n \<and> n \<le> 21)" "- 6 < n" "n \<le> 0"
    | (exp1) "\<not> (int k \<le> n \<and> n \<le> 21)" "\<not> (0 < n \<and> n \<le> 21)" "\<not> (- 6 < n \<and> n \<le> 0)" "k = 1"
    | (expn) "\<not> (int k \<le> n \<and> n \<le> 21)" "\<not> (0 < n \<and> n \<le> 21)" "\<not> (- 6 < n \<and> n \<le> 0)" "k \<noteq> 1"
    by linarith
  then have "lex_number (format_digits n k ds @ rest)
           = Some (round_double (of_int s * 10 powi (n - int k)), rest)
       \<and> lex_number (0x2D # format_digits n k ds @ rest)
           = Some (round_double (- (of_int s * 10 powi (n - int k))), rest)
       \<and> (\<exists>c cs. format_digits n k ds = c # cs \<and> isDigit c)"
  proof cases
    case int
    define z where "z = replicate (nat (n - int k)) (0x30::jschar)"
    have f: "format_digits n k ds = ds @ z"
      using int by (simp add: format_digits_def z_def)
    have ip: "ds @ z \<noteq> []" "\<forall>c\<in>set (ds @ z). isDigit c" "length (ds @ z) = 1 \<or> hd (ds @ z) \<noteq> 0x30"
      using ne dig hd0 by (auto simp: z_def isDigit_def)
    have "mv_of (ds @ z) [] 0 = of_int s * 10 ^ nat (n - int k)"
      by (simp add: mv_of_def digits_val_append dv z_def)
    also have "\<dots> = of_int s * 10 powi (n - int k)"
      using int by (simp add: power_int_def)
    finally have mv: "mv_of (ds @ z) [] 0 = of_int s * 10 powi (n - int k)" .
    from goal[OF ip dn(1) lex_fraction_none[OF dn(2)] lex_exponent_none[OF dn(3)] mv]
    show ?thesis unfolding f using ne hdd by (cases ds) auto
  next
    case frac
    then have nk: "nat n < k" by linarith
    define a b m where "a = take (nat n) ds" and "b = drop (nat n) ds" and "m = k - nat n"
    have ab: "ds = a @ b" by (simp add: a_def b_def)
    have la: "length a = nat n" and lb: "length b = m" using nk len by (simp_all add: a_def b_def m_def)
    have f: "format_digits n k ds = a @ 0x2E # b"
      by (simp only: format_digits_def if_not_P[OF frac(1)] if_P[OF conjI[OF frac(2,3)]] a_def b_def)
         simp
    have ane: "a \<noteq> []" using la frac by auto
    have ha: "hd a = hd ds" using ane by (simp add: a_def)
    have sa: "set a \<subseteq> set ds" unfolding a_def by (rule set_take_subset)
    have ip: "a \<noteq> []" "\<forall>c\<in>set a. isDigit c" "length a = 1 \<or> hd a \<noteq> 0x30"
      using ane dig hd0 sa by (auto simp: ha)
    have bne: "b \<noteq> []" using lb nk by (auto simp: m_def)
    have bd: "\<forall>c\<in>set b. isDigit c" using dig set_drop_subset[of "nat n" ds] by (auto simp: b_def)
    have fr: "lex_fraction (0x2E # b @ rest) = Some (b, rest)"
      by (rule lex_fraction_some[OF bne bd dn(1)])
    have "s = digits_val a * 10 ^ m + digits_val b"
      using dv digits_val_append[of a b] lb unfolding ab[symmetric] by simp
    then have "(of_int s :: rat) = of_int (digits_val a) * 10 ^ m + of_int (digits_val b)"
      by (simp only: of_int_add of_int_mult of_int_power of_int_numeral)
    then have "mv_of a b 0 = of_int s / 10 ^ m"
      by (simp add: mv_of_def lb add_divide_distrib)
    also have "\<dots> = of_int s * 10 powi (- int m)"
      by (simp add: powi_neg_nat)
    also have "- int m = n - int k" using nk frac by (simp add: m_def)
    finally have mv: "mv_of a b 0 = of_int s * 10 powi (n - int k)" .
    from goal[OF ip dot_next fr lex_exponent_none[OF dn(3)] mv]
    show ?thesis unfolding f by auto
  next
    case small
    define z m where "z = replicate (nat (- n)) (0x30::jschar)" and "m = nat (- n) + k"
    have f: "format_digits n k ds = [0x30] @ 0x2E # (z @ ds)"
      by (simp only: format_digits_def if_not_P[OF small(1)] if_not_P[OF small(2)]
          if_P[OF conjI[OF small(3,4)]] z_def) simp
    have ip: "[0x30::jschar] \<noteq> []" "\<forall>c\<in>set [0x30::jschar]. isDigit c"
      "length [0x30::jschar] = 1 \<or> hd [0x30::jschar] \<noteq> 0x30"
      by (simp_all add: isDigit_def)
    have zd: "\<forall>c\<in>set (z @ ds). isDigit c" using dig by (auto simp: z_def isDigit_def)
    have fr: "lex_fraction (0x2E # (z @ ds) @ rest) = Some (z @ ds, rest)"
      using ne by (intro lex_fraction_some[OF _ zd dn(1)]) simp
    have z0: "digits_val [0x30] = 0" by (simp add: digits_val_def digitVal_def)
    have "digits_val (z @ ds) = s" by (simp add: digits_val_append dv z_def)
    moreover have "length (z @ ds) = m" by (simp add: z_def m_def len)
    ultimately have "mv_of [0x30] (z @ ds) 0 = of_int s / 10 ^ m"
      by (simp add: mv_of_def z0)
    also have "\<dots> = of_int s * 10 powi (- int m)"
      by (simp add: powi_neg_nat)
    also have "- int m = n - int k" using small by (simp add: m_def)
    finally have mv: "mv_of [0x30] (z @ ds) 0 = of_int s * 10 powi (n - int k)" .
    from goal[OF ip dot_next fr lex_exponent_none[OF dn(3)] mv]
    show ?thesis unfolding f by (auto simp: isDigit_def)
  next
    case exp1
    define E where "E = 0x65 # (if n - 1 < 0 then 0x2D else 0x2B) # decimal \<bar>n - 1\<bar> @ rest"
    have f: "format_digits n k ds @ rest = ds @ E"
      by (simp only: format_digits_def if_not_P[OF exp1(1)] if_not_P[OF exp1(2)]
          if_not_P[OF exp1(3)] if_P[OF exp1(4)] E_def) simp
    have ip: "ds \<noteq> []" "\<forall>c\<in>set ds. isDigit c" "length ds = 1 \<or> hd ds \<noteq> 0x30"
      using ne dig hd0 by auto
    have fr: "lex_fraction E = Some ([], E)"
      by (rule lex_fraction_none) (simp add: E_def)
    have ex: "lex_exponent E = Some (n - 1, rest)"
      unfolding E_def by (rule lex_exponent_some[OF dn(1)])
    have mv: "mv_of ds [] (n - 1) = of_int s * 10 powi (n - int k)"
      using exp1(4) by (simp add: mv_of_def dv)
    have en: "no_digit_next E" unfolding E_def by (rule e_next)
    have "\<exists>c cs. format_digits n k ds = c # cs \<and> isDigit c"
      using ne hdd
      by (simp only: format_digits_def if_not_P[OF exp1(1)] if_not_P[OF exp1(2)]
          if_not_P[OF exp1(3)] if_P[OF exp1(4)]) (cases ds; simp)
    with goal[OF ip en fr ex mv] f show ?thesis by simp
  next
    case expn
    with k have k2: "2 \<le> k" by simp
    define E where "E = 0x65 # (if n - 1 < 0 then 0x2D else 0x2B) # decimal \<bar>n - 1\<bar> @ rest"
    obtain d t where dt: "ds = d # t" using ne by (cases ds) auto
    have lt: "length t = k - 1" using len dt by auto
    have tne: "t \<noteq> []" using lt k2 by auto
    have f: "format_digits n k ds @ rest = [d] @ 0x2E # t @ E"
      by (simp only: format_digits_def if_not_P[OF expn(1)] if_not_P[OF expn(2)]
          if_not_P[OF expn(3)] if_not_P[OF expn(4)] E_def dt) simp
    have ip: "[d] \<noteq> []" "\<forall>c\<in>set [d]. isDigit c" "length [d] = 1 \<or> hd [d] \<noteq> 0x30"
      using dig dt by auto
    have td: "\<forall>c\<in>set t. isDigit c" using dig dt by auto
    have en: "no_digit_next E" unfolding E_def by (rule e_next)
    have fr: "lex_fraction (0x2E # t @ E) = Some (t, E)"
      by (rule lex_fraction_some[OF tne td en])
    have ex: "lex_exponent E = Some (n - 1, rest)"
      unfolding E_def by (rule lex_exponent_some[OF dn(1)])
    have "s = digits_val [d] * 10 ^ (k - 1) + digits_val t"
      using dv digits_val_append[of "[d]" t] dt lt by simp
    then have "(of_int s :: rat) = of_int (digits_val [d]) * 10 ^ (k - 1) + of_int (digits_val t)"
      by (simp only: of_int_add of_int_mult of_int_power of_int_numeral)
    then have "mv_of [d] t (n - 1) = of_int s / 10 ^ (k - 1) * 10 powi (n - 1)"
      by (simp add: mv_of_def lt add_divide_distrib)
    also have "\<dots> = of_int s * (10 powi (n - 1) / 10 ^ (k - 1))"
      by simp
    also have "\<dots> = of_int s * 10 powi (n - 1 - int (k - 1))"
      by (simp only: powi_sub_nat)
    also have "n - 1 - int (k - 1) = n - int k" using k by simp
    finally have mv: "mv_of [d] t (n - 1) = of_int s * 10 powi (n - int k)" .
    have "\<exists>c cs. format_digits n k ds = c # cs \<and> isDigit c"
      using hdd dt
      by (simp only: format_digits_def if_not_P[OF expn(1)] if_not_P[OF expn(2)]
          if_not_P[OF expn(3)] if_not_P[OF expn(4)]) simp
    with goal[OF ip dot_next fr ex mv] f show ?thesis by simp
  qed
  then show ?thesis by (simp add: ds_def)
qed

definition reads_back :: "rat \<Rightarrow> bool" where
  "reads_back x \<longleftrightarrow>
     (\<forall>rest. delim rest \<longrightarrow> lex_number (Number_toString x @ rest) = Some (Fin x, rest))
     \<and> (\<exists>c cs. Number_toString x = c # cs \<and> (c = 0x2D \<or> isDigit c))"

lemma number_reads_back:
  assumes "reads_back x" "delim rest"
  shows "lex_number (Number_toString x @ rest) = Some (Fin x, rest)"
    and "\<exists>c cs. Number_toString x = c # cs \<and> (c = 0x2D \<or> isDigit c)"
  using assms by (auto simp: reads_back_def)



lemma shortest_valid:
  "shortest x ks = Some (n, k, s) \<Longrightarrow> k \<in> set ks \<and> valid_digits x k n s"
proof (induction ks)
  case Nil
  then show ?case by simp
next
  case (Cons j ks)
  show ?case
  proof (cases "candidates x j")
    case Nil
    with Cons show ?thesis by simp
  next
    case (Cons c cs)
    obtain n' s' where c: "c = (n', s')" by (cases c)
    have "c \<in> set (candidates x j)" using Cons by simp
    then have "valid_digits x j n' s'" by (auto simp: candidates_def c)
    with Cons c \<open>shortest x (j # ks) = Some (n, k, s)\<close> show ?thesis by simp
  qed
qed

lemma scaled_integer:
  assumes "(x::rat) = of_int m * 2 powi e" "- int N \<le> e"
  shows "x * 10 ^ N = of_int (m * 2 ^ nat (e + int N) * 5 ^ N)"
proof -
  have "(2::rat) powi e * 2 ^ N = 2 powi e * 2 powi (int N)" by simp
  also have "\<dots> = 2 powi (e + int N)" by (simp add: power_int_add)
  also have "\<dots> = 2 ^ nat (e + int N)" using assms(2) by (simp add: power_int_def)
  finally have p: "(2::rat) powi e * 2 ^ N = 2 ^ nat (e + int N)" .
  have "(10::rat) ^ N = 2 ^ N * 5 ^ N"
    by (simp add: power_mult_distrib[symmetric])
  then have "x * 10 ^ N = of_int m * (2 powi e * 2 ^ N) * 5 ^ N"
    by (simp add: assms(1))
  also have "\<dots> = of_int (m * 2 ^ nat (e + int N) * 5 ^ N)"
    unfolding p by simp
  finally show ?thesis .
qed

lemma double_multiple:
  assumes "is_double x" "0 < x"
  shows "\<exists>i. 0 < i \<and> x * 10 ^ exact_scale = of_int i"
proof -
  define e where "e = max (ilog2 x - 52) (- 1074)"
  define m where "m = round_half_even (x / 2 powi e)"
  from assms have x: "x = of_int m * 2 powi e"
    by (auto simp: is_double_def round_double_pos Let_def e_def m_def split: if_splits)
  have e: "- int exact_scale \<le> e" by (simp add: e_def exact_scale_def)
  note i = scaled_integer[OF x e]
  have "0 < x * 10 ^ exact_scale" using assms(2) by simp
  then have "0 < m * 2 ^ nat (e + int exact_scale) * 5 ^ exact_scale"
    unfolding i by (simp only: of_int_0_less_iff)
  with i show ?thesis by blast
qed

lemma exact_digits_valid:
  assumes "is_double x" "0 < x" "exact_digits x = (n, k, s)"
  shows "1 \<le> k \<and> valid_digits x k n s"
proof -
  from double_multiple[OF assms(1,2)] obtain i where i: "0 < i" "x * 10 ^ exact_scale = of_int i" by blast
  from assms(3) have s: "s = i" and k: "k = length (decimal i)" and n: "n = int k - int exact_scale"
    unfolding exact_digits_def Let_def i(2) by auto
  have k1: "1 \<le> k" using decimal_props[of i] i(1) unfolding k by (cases "decimal i") auto
  have "of_int s * 10 powi (n - int k) = x * 10 ^ exact_scale * 10 powi (- int exact_scale)"
    by (simp add: s n i(2))
  also have "\<dots> = x"
    by (simp add: power_int_minus)
  finally have v: "round_double (of_int s * 10 powi (n - int k)) = Fin x"
    using assms(1) by (simp add: is_double_def)
  from length_decimal_bounds[OF i(1)] v k1 show ?thesis
    by (simp add: valid_digits_def s k)
qed

lemma toString_positive_reads:
  assumes "is_double x" "0 < x" "delim rest"
  shows "lex_number (toString_positive x @ rest) = Some (Fin x, rest)"
    and "lex_number (0x2D # toString_positive x @ rest) = Some (Fin (- x), rest)"
    and "\<exists>c cs. toString_positive x = c # cs \<and> isDigit c"
proof -
  define r where "r = shortest x [1..<18]"
  obtain n k s where c: "(case r of None \<Rightarrow> exact_digits x | Some c \<Rightarrow> c) = (n, k, s)"
    by (cases "(case r of None \<Rightarrow> exact_digits x | Some c \<Rightarrow> c)") auto
  have "1 \<le> k \<and> valid_digits x k n s"
  proof (cases r)
    case None
    with c exact_digits_valid[OF assms(1,2)] show ?thesis by simp
  next
    case (Some a)
    with c have "r = Some (n, k, s)" by simp
    then have "shortest x [1..<18] = Some (n, k, s)" unfolding r_def .
    from shortest_valid[OF this] have "k \<in> set [1..<18]" "valid_digits x k n s" by blast+
    then show ?thesis by (simp del: upt_Suc)
  qed
  then have k: "1 \<le> k" and s: "10 ^ (k - 1) \<le> s" "s < 10 ^ k"
    and v: "round_double (of_int s * 10 powi (n - int k)) = Fin x"
    by (simp_all add: valid_digits_def)
  have t: "toString_positive x = format_digits n k (decimal s)"
    unfolding toString_positive_def r_def[symmetric] c by simp
  note f = format_reads[OF k s assms(3), of n]
  show "lex_number (toString_positive x @ rest) = Some (Fin x, rest)"
    using f v by (simp add: t)
  show "lex_number (0x2D # toString_positive x @ rest) = Some (Fin (- x), rest)"
    using f v by (simp add: t round_double_neg)
  show "\<exists>c cs. toString_positive x = c # cs \<and> isDigit c"
    using f by (simp add: t)
qed

lemma is_double_neg: "is_double x \<Longrightarrow> is_double (- x)"
  by (simp add: is_double_def round_double_neg)

lemma reads_backI:
  assumes "\<And>rest. delim rest \<Longrightarrow> lex_number (Number_toString x @ rest) = Some (Fin x, rest)"
    and "\<exists>c cs. Number_toString x = c # cs \<and> (c = 0x2D \<or> isDigit c)"
  shows "reads_back x"
  using assms unfolding reads_back_def by blast

lemma double_reads_back: "is_double x \<Longrightarrow> reads_back x"
proof -
  assume d: "is_double x"
  consider "x = 0" | "0 < x" | "x < 0" by linarith
  then show ?thesis
  proof cases
    case 1
    have n: "Number_toString x = [0x30]" using 1 by (simp add: Number_toString_def js_def)
    have v: "round_double (mv_of [0x30] [] 0) = Fin 0"
      by (simp add: mv_of_def digits_val_def digitVal_def round_double_def)
    show ?thesis
    proof (rule reads_backI)
      fix rest assume r: "delim rest"
      note dn = delim_next[OF r]
      have "lex_number ([0x30] @ rest) = Some (round_double (mv_of [0x30] [] 0), rest)"
        by (rule lex_number_shape(1)[OF _ _ _ dn(1) lex_fraction_none[OF dn(2)] lex_exponent_none[OF dn(3)]])
           (simp_all add: isDigit_def)
      then show "lex_number (Number_toString x @ rest) = Some (Fin x, rest)"
        unfolding n v using 1 by simp
    next
      show "\<exists>c cs. Number_toString x = c # cs \<and> (c = 0x2D \<or> isDigit c)"
        unfolding n by (simp add: isDigit_def)
    qed
  next
    case 2
    have n: "Number_toString x = toString_positive x" using 2 by (simp add: Number_toString_def)
    show ?thesis
    proof (rule reads_backI)
      fix rest assume r: "delim rest"
      show "lex_number (Number_toString x @ rest) = Some (Fin x, rest)"
        unfolding n by (rule toString_positive_reads(1)[OF d 2 r])
    next
      have "delim []" by (simp add: delim_def)
      from toString_positive_reads(3)[OF d 2 this]
      show "\<exists>c cs. Number_toString x = c # cs \<and> (c = 0x2D \<or> isDigit c)"
        unfolding n by blast
    qed
  next
    case 3
    then have p: "0 < - x" by simp
    have n: "Number_toString x = 0x2D # toString_positive (- x)"
      using 3 by (simp add: Number_toString_def)
    show ?thesis
    proof (rule reads_backI)
      fix rest assume r: "delim rest"
      from toString_positive_reads(2)[OF is_double_neg[OF d] p r]
      show "lex_number (Number_toString x @ rest) = Some (Fin x, rest)"
        unfolding n by simp
    next
      show "\<exists>c cs. Number_toString x = c # cs \<and> (c = 0x2D \<or> isDigit c)"
        unfolding n by simp
    qed
  qed
qed

subsection \<open>Values\<close>

lemma tokens_first: "\<exists>t ts. tokens v = t # ts \<and> t \<noteq> TRBracket"
  by (cases v) auto

lemma tokens_elements_first: "xs \<noteq> [] \<Longrightarrow> \<exists>t ts. tokens_elements xs = t # ts \<and> t \<noteq> TRBracket"
proof (cases xs)
  case Nil
  assume "xs \<noteq> []" with Nil show ?thesis by simp
next
  case (Cons x xs')
  obtain t ts where "tokens x = t # ts" "t \<noteq> TRBracket" using tokens_first by blast
  with Cons show ?thesis by (cases xs') auto
qed

lemma define_property_new: "k \<notin> fst ` set ms \<Longrightarrow> define_property ms k v = ms @ [(k, v)]"
  by (induction ms) auto

lemma prun_append: "prun st (ts @ us) = (case prun st ts of None \<Rightarrow> None | Some st' \<Rightarrow> prun st' us)"
  by (induction ts arbitrary: st) (auto split: option.splits)

lemma prun_tokens:
  "proper v \<Longrightarrow> prun (PValue fs) (tokens v @ ts) = prun (deliver v fs) ts"
  "xs \<noteq> [] \<Longrightarrow> proper_elements xs \<Longrightarrow>
     prun (PValue (InArray acc # fs)) (tokens_elements xs @ TRBracket # ts)
     = prun (deliver (JArr (rev acc @ xs)) fs) ts"
  "ms \<noteq> [] \<Longrightarrow> proper_members ms \<Longrightarrow> distinct (map fst (dn @ ms)) \<Longrightarrow>
     (\<And>k. pstep st (TString k) = Some (PColon dn k fs)) \<Longrightarrow>
     prun st (tokens_members ms @ TRBrace # ts) = prun (deliver (JObj (dn @ ms)) fs) ts"
proof (induction v and xs and ms arbitrary: fs ts and acc fs ts and dn st fs ts
    rule: tokens_tokens_elements_tokens_members.induct)
  case 1
  then show ?case by simp
next
  case 2
  show ?case by simp
next
  case (3 b)
  show ?case by simp
next
  case (4 n)
  show ?case by simp
next
  case (5 s)
  show ?case by simp
next
  case (6 xs)
  show ?case
  proof (cases "xs = []")
    case True
    then show ?thesis by simp
  next
    case False
    then obtain t us where t: "tokens_elements xs = t # us" "t \<noteq> TRBracket"
      using tokens_elements_first by blast
    have "prun (PValue fs) (tokens (JArr xs) @ ts)
        = prun (PArrayStart fs) (tokens_elements xs @ TRBracket # ts)" by simp
    also have "\<dots> = prun (PValue (InArray [] # fs)) (tokens_elements xs @ TRBracket # ts)"
      using t by simp
    also have "\<dots> = prun (deliver (JArr (rev [] @ xs)) fs) ts"
      using False "6.prems" by (intro "6.IH") simp_all
    finally show ?thesis by simp
  qed
next
  case (7 ms)
  show ?case
  proof (cases "ms = []")
    case True
    then show ?thesis by simp
  next
    case False
    have "prun (PValue fs) (tokens (JObj ms) @ ts)
        = prun (PObjectStart fs) (tokens_members ms @ TRBrace # ts)" by simp
    also have "\<dots> = prun (deliver (JObj ([] @ ms)) fs) ts"
      using False "7.prems" by (intro "7.IH") simp_all
    finally show ?thesis by simp
  qed
next
  case 8
  then show ?case by simp
next
  case (9 x)
  then have "prun (PValue (InArray acc # fs)) (tokens x @ TRBracket # ts)
      = prun (deliver x (InArray acc # fs)) (TRBracket # ts)"
    by (intro "9.IH") simp
  then show ?case by simp
next
  case (10 x y ys)
  from "10.prems" have px: "proper x" and py: "proper_elements (y # ys)" by simp_all
  have "prun (PValue (InArray acc # fs)) (tokens_elements (x # y # ys) @ TRBracket # ts)
      = prun (PValue (InArray acc # fs)) (tokens x @ (TComma # tokens_elements (y # ys) @ TRBracket # ts))"
    by simp
  also have "\<dots> = prun (deliver x (InArray acc # fs)) (TComma # tokens_elements (y # ys) @ TRBracket # ts)"
    using px by (rule "10.IH"(1))
  also have "\<dots> = prun (PValue (InArray (x # acc) # fs)) (tokens_elements (y # ys) @ TRBracket # ts)"
    by simp
  also have "\<dots> = prun (deliver (JArr (rev (x # acc) @ y # ys)) fs) ts"
    using py by (intro "10.IH"(2)) simp_all
  finally show ?case by simp
next
  case 11
  then show ?case by simp
next
  case (12 k v)
  from "12.prems" have pv: "proper v" and nk: "k \<notin> fst ` set dn" by auto
  have "prun st (tokens_members [(k, v)] @ TRBrace # ts)
      = prun (PValue (InObject dn k # fs)) (tokens v @ TRBrace # ts)"
    using "12.prems"(4)[of k] by simp
  also have "\<dots> = prun (deliver v (InObject dn k # fs)) (TRBrace # ts)"
    using pv by (rule "12.IH")
  finally show ?case using nk by (simp add: define_property_new)
next
  case (13 k v m ms)
  from "13.prems" have pv: "proper v" and pm: "proper_members (m # ms)"
    and nk: "k \<notin> fst ` set dn" and d: "distinct (map fst ((dn @ [(k, v)]) @ m # ms))" by auto
  have "prun st (tokens_members ((k, v) # m # ms) @ TRBrace # ts)
      = prun (PValue (InObject dn k # fs)) (tokens v @ (TComma # tokens_members (m # ms) @ TRBrace # ts))"
    using "13.prems"(4)[of k] by simp
  also have "\<dots> = prun (deliver v (InObject dn k # fs)) (TComma # tokens_members (m # ms) @ TRBrace # ts)"
    using pv by (rule "13.IH"(1))
  also have "\<dots> = prun (PKey (dn @ [(k, v)]) fs) (tokens_members (m # ms) @ TRBrace # ts)"
    using nk by (simp add: define_property_new)
  also have "\<dots> = prun (deliver (JObj ((dn @ [(k, v)]) @ m # ms)) fs) ts"
    using pm d by (intro "13.IH"(2)) simp_all
  finally show ?case by simp
qed

lemma prun_tokens_top: "proper v \<Longrightarrow> prun (PValue []) (tokens v) = Some (PDone v)"
  using prun_tokens(1)[of v "[]" "[]"] by simp

lemma lex_null: "tokenize (js ''null'' @ rest) = map_option ((#) TNull) (tokenize rest)"
  by (simp add: js_def isJSONWhiteSpace_def isDigit_def)

lemma lex_true: "tokenize (js ''true'' @ rest) = map_option ((#) TTrue) (tokenize rest)"
  by (simp add: js_def isJSONWhiteSpace_def isDigit_def)

lemma lex_false: "tokenize (js ''false'' @ rest) = map_option ((#) TFalse) (tokenize rest)"
  by (simp add: js_def isJSONWhiteSpace_def isDigit_def)

lemma lex_punct:
  "tokenize (0x5B # cs) = map_option ((#) TLBracket) (tokenize cs)"
  "tokenize (0x5D # cs) = map_option ((#) TRBracket) (tokenize cs)"
  "tokenize (0x7B # cs) = map_option ((#) TLBrace) (tokenize cs)"
  "tokenize (0x7D # cs) = map_option ((#) TRBrace) (tokenize cs)"
  "tokenize (0x3A # cs) = map_option ((#) TColon) (tokenize cs)"
  "tokenize (0x2C # cs) = map_option ((#) TComma) (tokenize cs)"
  by (simp_all add: isJSONWhiteSpace_def)

lemma lex_quoted: "tokenize (QuoteJSONString s @ rest) = map_option ((#) (TString s)) (tokenize rest)"
  by (simp add: QuoteJSONString_def isJSONWhiteSpace_def lex_string_quote_chars del: lex_string.simps)

lemma lex_number_text:
  assumes "reads_back x" "delim rest"
  shows "tokenize (Number_toString x @ rest) = map_option ((#) (TNumber (Fin x))) (tokenize rest)"
proof -
  from number_reads_back(2)[OF assms] obtain c cs where
    c: "Number_toString x = c # cs" "c = 0x2D \<or> isDigit c" by blast
  have n: "lex_number (c # cs @ rest) = Some (Fin x, rest)"
    using number_reads_back(1)[OF assms] c by simp
  from c(2) have "\<not> isJSONWhiteSpace c" "c \<noteq> 0x7B" "c \<noteq> 0x7D" "c \<noteq> 0x5B" "c \<noteq> 0x5D"
    "c \<noteq> 0x3A" "c \<noteq> 0x2C" "c \<noteq> 0x22"
    by (auto simp: isJSONWhiteSpace_def isDigit_def word_le_nat_alt)
  with c n show ?thesis by simp
qed


lemma proper_serialize:
  "proper v \<Longrightarrow> \<exists>s. serialize v = Some s"
  by (cases v) auto

lemma delim_simps [simp]: "delim []" "delim (0x2C # r)" "delim (0x5D # r)" "delim (0x7D # r)"
  by (simp_all add: delim_def)

lemma lex_serialize:
  shows "proper v \<Longrightarrow> finite_numbers v \<Longrightarrow> double_numbers v \<Longrightarrow> serialize v = Some s
      \<Longrightarrow> delim rest \<Longrightarrow> tokenize (s @ rest) = map_option ((@) (tokens v)) (tokenize rest)"
    and "xs \<noteq> [] \<Longrightarrow> proper_elements xs \<Longrightarrow> finite_elements xs \<Longrightarrow> double_elements xs
      \<Longrightarrow> tokenize (join_comma (serialize_elements xs) @ 0x5D # rest)
          = map_option ((@) (tokens_elements xs @ [TRBracket])) (tokenize rest)"
    and "ms \<noteq> [] \<Longrightarrow> proper_members ms \<Longrightarrow> finite_members ms \<Longrightarrow> double_members ms
      \<Longrightarrow> tokenize (join_comma (serialize_members ms) @ 0x7D # rest)
          = map_option ((@) (tokens_members ms @ [TRBrace])) (tokenize rest)"
proof (induction v and xs and ms arbitrary: s rest and rest and rest
    rule: tokens_tokens_elements_tokens_members.induct)
  case 1
  then show ?case by simp
next
  case 2
  then show ?case by (auto simp: lex_null option.map_comp comp_def)
next
  case (3 b)
  then show ?case by (auto simp: lex_true lex_false)
next
  case (4 n)
  then obtain x where x: "n = Fin x" "is_double x" by (cases n) auto
  with "4.prems" lex_number_text[OF double_reads_back[OF x(2)]] show ?case by auto
next
  case (5 t)
  then show ?case by (auto simp: lex_quoted)
next
  case (6 xs)
  show ?case
  proof (cases "xs = []")
    case True
    with "6.prems" show ?thesis by (auto simp: lex_punct option.map_comp comp_def simp del: tokenize.simps)
  next
    case False
    with "6.prems" "6.IH"[of rest] show ?thesis
      by (auto simp: lex_punct option.map_comp comp_def simp del: tokenize.simps)
  qed
next
  case (7 ms)
  show ?case
  proof (cases "ms = []")
    case True
    with "7.prems" show ?thesis by (auto simp: lex_punct option.map_comp comp_def simp del: tokenize.simps)
  next
    case False
    with "7.prems" "7.IH"[of rest] show ?thesis
      by (auto simp: lex_punct option.map_comp comp_def simp del: tokenize.simps)
  qed
next
  case 8
  then show ?case by simp
next
  case (9 x)
  then obtain s where s: "serialize x = Some s" using proper_serialize[of x] by auto
  with "9.prems" "9.IH"[of s "0x5D # rest"] show ?case
    by (simp add: lex_punct option.map_comp comp_def del: tokenize.simps)
next
  case (10 x y ys)
  then obtain s where s: "serialize x = Some s" using proper_serialize[of x] by auto
  define E where "E = join_comma (serialize_elements (y # ys)) @ 0x5D # rest"
  have "join_comma (serialize_elements (x # y # ys)) @ 0x5D # rest = s @ 0x2C # E"
    using s by (simp add: E_def)
  moreover have "tokenize (s @ 0x2C # E) = map_option ((@) (tokens x)) (tokenize (0x2C # E))"
    using "10.prems" s by (intro "10.IH"(1)) simp_all
  moreover have "tokenize (0x2C # E) = map_option ((#) TComma) (tokenize E)"
    by (rule lex_punct)
  moreover have "tokenize E = map_option ((@) (tokens_elements (y # ys) @ [TRBracket])) (tokenize rest)"
    unfolding E_def using "10.prems" by (intro "10.IH"(2)) simp_all
  ultimately show ?case
    by (cases "tokenize rest") simp_all
next
  case 11
  then show ?case by simp
next
  case (12 k v)
  then obtain s where s: "serialize v = Some s" using proper_serialize[of v] by auto
  have "join_comma (serialize_members [(k, v)]) @ 0x7D # rest
      = QuoteJSONString k @ 0x3A # s @ 0x7D # rest"
    using s by simp
  moreover have "tokenize (QuoteJSONString k @ 0x3A # s @ 0x7D # rest)
      = map_option ((#) (TString k)) (tokenize (0x3A # s @ 0x7D # rest))"
    by (rule lex_quoted)
  moreover have "tokenize (0x3A # s @ 0x7D # rest) = map_option ((#) TColon) (tokenize (s @ 0x7D # rest))"
    by (rule lex_punct)
  moreover have "tokenize (s @ 0x7D # rest) = map_option ((@) (tokens v)) (tokenize (0x7D # rest))"
    using "12.prems" s by (intro "12.IH") simp_all
  moreover have "tokenize (0x7D # rest) = map_option ((#) TRBrace) (tokenize rest)"
    by (rule lex_punct)
  ultimately show ?case
    by (cases "tokenize rest") simp_all
next
  case (13 k v m ms)
  then obtain s where s: "serialize v = Some s" using proper_serialize[of v] by auto
  define E where "E = join_comma (serialize_members (m # ms)) @ 0x7D # rest"
  obtain k' v' where m: "m = (k', v')" by (cases m)
  from "13.prems" m obtain s' where s': "serialize v' = Some s'" using proper_serialize[of v'] by auto
  have "join_comma (serialize_members ((k, v) # m # ms)) @ 0x7D # rest
      = QuoteJSONString k @ 0x3A # s @ 0x2C # E"
    using s s' m by (simp add: E_def)
  moreover have "tokenize (QuoteJSONString k @ 0x3A # s @ 0x2C # E)
      = map_option ((#) (TString k)) (tokenize (0x3A # s @ 0x2C # E))"
    by (rule lex_quoted)
  moreover have "tokenize (0x3A # s @ 0x2C # E) = map_option ((#) TColon) (tokenize (s @ 0x2C # E))"
    by (rule lex_punct)
  moreover have "tokenize (s @ 0x2C # E) = map_option ((@) (tokens v)) (tokenize (0x2C # E))"
    using "13.prems" s by (intro "13.IH"(1)) simp_all
  moreover have "tokenize (0x2C # E) = map_option ((#) TComma) (tokenize E)"
    by (rule lex_punct)
  moreover have "tokenize E = map_option ((@) (tokens_members (m # ms) @ [TRBrace])) (tokenize rest)"
    unfolding E_def using "13.prems" by (intro "13.IH"(2)) simp_all
  ultimately show ?case
    by (cases "tokenize rest") simp_all
qed

end
